theory Spec2Isabelle
  imports Complex_Main "HOL-Library.Signed_Division" "HOL-Library.Monad_Syntax"
begin

section \<open>Constants and errors\<close>

text \<open>
  \<^verbatim>\<open>unidom_constants.hpp\<close>: the compile-time limits (their default values).
  C++ \<^verbatim>\<open>int\<close> values are modelled as HOL integers; every quantity of the solvers is
  bounded by a small multiple of \<open>MAX_VERTS\<close> squared, far below \<open>2 ^ 31\<close>.
\<close>

definition MAX_VERTS :: int where
  "MAX_VERTS = 1024"

definition MAX_DEGREE :: int where
  "MAX_DEGREE = 1024"

definition INVALID_VERTEX :: int where
  "INVALID_VERTEX = 0x7fffffff"

text \<open>
  The ways in which a call can fail to return normally: the two exception classes of the
  repository, the \<^verbatim>\<open>std::length_error\<close> of \<^verbatim>\<open>vector::resize\<close>, behaviour that C++ leaves
  undefined (a read or write outside an array, a null pointer dereference, a read of
  an uninitialised local), and the exhaustion of the recursion budget of the model.
\<close>

datatype error = GraphError | LengthError | ConfigurableError | Undefined | OutOfFuel

section \<open>Graph (graph.hpp)\<close>

record Vertex =
  neighbours :: "int list"
  real_index :: int
  index :: int

type_synonym Graph = "Vertex list"

definition new_vertex :: "int \<Rightarrow> Vertex" where
  "new_vertex i = \<lparr>neighbours = [], real_index = i, index = i\<rparr>"

text \<open>
  \<^verbatim>\<open>Graph::reset(int new_size)\<close>: throws \<^verbatim>\<open>GraphError\<close> when
  \<^verbatim>\<open>new_size >= MAX_VERTS\<close>; a negative size reaches \<^verbatim>\<open>vertices.resize\<close>, which
  converts it to a huge unsigned value and throws \<^verbatim>\<open>std::length_error\<close>.
\<close>

definition Graph_reset :: "int \<Rightarrow> error + Graph" where
  "Graph_reset new_size =
     (if new_size \<ge> MAX_VERTS then Inl GraphError
      else if new_size < 0 then Inl LengthError
      else Inr (map new_vertex [0..new_size - 1]))"

definition Graph_n :: "Graph \<Rightarrow> int" where
  "Graph_n g = int (length g)"


text \<open>
  \<^verbatim>\<open>Graph::operator[](int v)\<close> indexes the vector with \<^verbatim>\<open>(unsigned int)v\<close>; an index
  outside the vector is undefined behaviour (\<open>None\<close>).
\<close>

definition vertex_at :: "Graph \<Rightarrow> int \<Rightarrow> Vertex option" where
  "vertex_at g v = (if 0 \<le> v \<and> v < Graph_n g then Some (g ! nat v) else None)"

definition vdeg :: "Vertex \<Rightarrow> int" where
  "vdeg vx = int (length (neighbours vx))"

definition add_neighbour_simple :: "int \<Rightarrow> Vertex \<Rightarrow> Vertex" where
  "add_neighbour_simple neighbour vx =
     (if neighbour \<in> set (neighbours vx) then vx
      else vx\<lparr>neighbours := neighbours vx @ [neighbour]\<rparr>)"

text \<open>The two conditioning passes that every solver runs first.\<close>

definition add_loops :: "Graph \<Rightarrow> Graph" where
  "add_loops g = map (\<lambda>vx. add_neighbour_simple (index vx) vx) g"

text \<open>
  \<^verbatim>\<open>std::stable_sort\<close> with the comparison \<^verbatim>\<open>a > b\<close>: on integers the descending
  arrangement is unique.
\<close>

definition sort_neighbours_descending :: "Graph \<Rightarrow> Graph" where
  "sort_neighbours_descending g = map (\<lambda>vx. vx\<lparr>neighbours := rev (sort (neighbours vx))\<rparr>) g"

section \<open>VertexSet (vertex\_set.hpp)\<close>

text \<open>
  The two arrays have \<open>MAX_VERTS\<close> cells; they are modelled as functions on the integers
  and every access checks its index. The \<^verbatim>\<open>assert\<close>s of the repository are compiled out
  (\<^verbatim>\<open>NDEBUG\<close>), here and below.
\<close>

record VertexSet =
  vs_size :: int
  set_elements :: "int \<Rightarrow> int"
  set_indices :: "int \<Rightarrow> int"

definition in_array :: "int \<Rightarrow> bool" where
  "in_array i = (0 \<le> i \<and> i < MAX_VERTS)"

definition reset_empty :: "VertexSet \<Rightarrow> VertexSet" where
  "reset_empty vs = vs\<lparr>vs_size := 0, set_indices := (\<lambda>_. MAX_VERTS)\<rparr>"

text \<open>
  \<^verbatim>\<open>reset_full(int n)\<close> runs \<^verbatim>\<open>for(unsigned int i = 0; i < n; i++)\<close>: a negative \<open>n\<close> is
  compared as a huge unsigned number, and the loop leaves the arrays.
\<close>

definition reset_full :: "int \<Rightarrow> VertexSet \<Rightarrow> VertexSet option" where
  "reset_full n vs =
     (if 0 \<le> n \<and> n \<le> MAX_VERTS
      then Some \<lparr>vs_size = n,
                 set_elements = (\<lambda>i. if 0 \<le> i \<and> i < n then i else set_elements vs i),
                 set_indices = (\<lambda>i. if 0 \<le> i \<and> i < n then i else set_indices vs i)\<rparr>
      else None)"

definition contains :: "VertexSet \<Rightarrow> int \<Rightarrow> bool option" where
  "contains vs v = (if in_array v then Some (set_indices vs v < vs_size vs) else None)"

definition vs_add :: "int \<Rightarrow> VertexSet \<Rightarrow> VertexSet option" where
  "vs_add v vs =
     (if in_array v \<and> in_array (vs_size vs)
      then Some (vs\<lparr>set_indices := (set_indices vs)(v := vs_size vs),
                    set_elements := (set_elements vs)(vs_size vs := v),
                    vs_size := vs_size vs + 1\<rparr>)
      else None)"

definition remove_pop :: "int \<Rightarrow> VertexSet \<Rightarrow> VertexSet option" where
  "remove_pop v vs =
     (if in_array v
      then Some (vs\<lparr>set_indices := (set_indices vs)(v := MAX_VERTS + 1),
                    vs_size := vs_size vs - 1\<rparr>)
      else None)"

definition vs_remove :: "int \<Rightarrow> VertexSet \<Rightarrow> VertexSet option" where
  "vs_remove v vs =
     (if \<not> in_array v then None
      else let idx = set_indices vs v;
               size' = vs_size vs - 1
           in if \<not> in_array size' then None
              else let u = set_elements vs size'
                   in if \<not> in_array idx \<or> \<not> in_array u then None
                      else let elems1 = (set_elements vs)(idx := u);
                               inds1 = (set_indices vs)(u := idx);
                               elems2 = elems1(size' := v);
                               inds2 = inds1(v := MAX_VERTS + 1)
                           in Some \<lparr>vs_size = size', set_elements = elems2, set_indices = inds2\<rparr>)"

text \<open>Iteration from \<^verbatim>\<open>begin()\<close> to \<^verbatim>\<open>end()\<close>: the first \<open>size\<close> cells of the dense array.\<close>

definition vs_list :: "VertexSet \<Rightarrow> int list" where
  "vs_list vs = map (set_elements vs) [0..vs_size vs - 1]"

text \<open>A value-initialised object on which the constructor has run.\<close>

definition new_VertexSet :: VertexSet where
  "new_VertexSet = \<lparr>vs_size = 0, set_elements = (\<lambda>_. 0), set_indices = (\<lambda>_. MAX_VERTS)\<rparr>"

record DominationInstance =
  G :: Graph
  force_in :: VertexSet
  force_out :: VertexSet

section \<open>The backtracking framework (bbt\_framework.hpp)\<close>

text \<open>
  The settings are \<^verbatim>\<open>unsigned int\<close>; a comparison of an \<^verbatim>\<open>int\<close> with one of them
  converts the \<^verbatim>\<open>int\<close> to unsigned first (\<open>u32\<close>), and \<open>s32\<close> reads an unsigned value
  back as an \<^verbatim>\<open>int\<close>.
\<close>

definition u32 :: "int \<Rightarrow> int" where
  "u32 x = x mod 2 ^ 32"

definition s32 :: "int \<Rightarrow> int" where
  "s32 x = (x + 2 ^ 31) mod 2 ^ 32 - 2 ^ 31"

definition INVALID_DEPTH :: int where
  "INVALID_DEPTH = 2 ^ 32 - 1"

record Settings =
  resmod_mod :: int
  resmod_res :: int
  resmod_depth :: int
  total_lower_bound :: int
  total_upper_bound :: int

definition default_settings :: Settings where
  "default_settings =
     \<lparr>resmod_mod = 1, resmod_res = 0, resmod_depth = INVALID_DEPTH,
      total_lower_bound = 0, total_upper_bound = MAX_VERTS\<rparr>"

text \<open>
  \<^verbatim>\<open>report_node<check_resmod_depth>(depth)\<close> on the \<^verbatim>\<open>unsigned long long\<close> counters
  \<open>depth_log\<close>; it returns the code and the updated log.
\<close>

definition report_node ::
  "bool \<Rightarrow> Settings \<Rightarrow> int \<Rightarrow> (int \<Rightarrow> int) \<Rightarrow> (int \<times> (int \<Rightarrow> int)) option" where
  "report_node check_resmod_depth st depth dl =
     (if \<not> in_array depth then None
      else let dl' = dl(depth := (dl depth + 1) mod 2 ^ 64)
           in if check_resmod_depth
              then (if u32 depth = resmod_depth st
                    then (if resmod_mod st = 0 then None
                          else if ((dl' depth - 1) mod 2 ^ 64) mod resmod_mod st = resmod_res st
                               then Some (1, dl')
                               else Some (0, dl'))
                    else Some (- 1, dl'))
              else Some (1, dl'))"

definition unreport_node :: "int \<Rightarrow> (int \<Rightarrow> int) \<Rightarrow> (int \<Rightarrow> int) option" where
  "unreport_node depth dl =
     (if \<not> in_array depth then None
      else Some (dl(depth := (dl depth - 1) mod 2 ^ 64)))"

text \<open>
  The part of the search state that the three solver classes share. \<open>out\<close> is the
  sequence of sets handed to \<^verbatim>\<open>output_proxy->process_set\<close> so far.
\<close>

record bbt_state =
  D :: VertexSet
  B :: VertexSet
  covered :: "int \<Rightarrow> int"
  fixed :: "int \<Rightarrow> int"
  total_covered :: int
  total_fixed :: int
  depth_log :: "int \<Rightarrow> int"
  out :: "VertexSet list"

text \<open>
  A call either returns the new state or stops with an error; the sets emitted before the
  error have been written already, so the error carries them.
\<close>

type_synonym 'a outcome = "(error \<times> VertexSet list) + 'a"

definition abort :: "error \<Rightarrow> 'a bbt_state_scheme \<Rightarrow> 'b outcome" where
  "abort e s = Inl (e, out s)"

text \<open>
  The leaf of the search, identical in the three solvers: when every vertex is covered,
  \<open>D\<close> is reported subject to the bounds of the mode.
\<close>

definition record_solution :: "bool \<Rightarrow> Settings \<Rightarrow> 'a bbt_state_scheme \<Rightarrow> 'a bbt_state_scheme" where
  "record_solution GENERATE_ALL st s =
     (if GENERATE_ALL
      then (if u32 (vs_size (D s)) \<ge> total_lower_bound st \<and> u32 (vs_size (D s)) \<le> total_upper_bound st
            then s\<lparr>out := out s @ [D s]\<rparr>
            else s)
      else (if u32 (vs_size (D s)) \<ge> total_lower_bound st \<and> vs_size (D s) < vs_size (B s)
            then s\<lparr>B := D s, out := out s @ [D s]\<rparr>
            else s))"

text \<open>
  The initialisation of the best set in \<^verbatim>\<open>solve\<close>: \<^verbatim>\<open>B.reset_full(m)\<close>, then
  \<^verbatim>\<open>if (!GENERATE_ALL && total_upper_bound < n) B.reset_full(total_upper_bound+1)\<close>.
  The fixed-order solver passes \<open>m = n\<close>, the DD and MDD solvers \<open>m = n - 1\<close>.
\<close>

definition init_B :: "bool \<Rightarrow> Settings \<Rightarrow> int \<Rightarrow> int \<Rightarrow> VertexSet \<Rightarrow> VertexSet option" where
  "init_B GENERATE_ALL st n m b =
     do {
       b1 \<leftarrow> reset_full m b;
       if \<not> GENERATE_ALL \<and> total_upper_bound st < u32 n
       then reset_full (s32 (u32 (total_upper_bound st + 1))) b1
       else Some b1
     }"

text \<open>Covering and uncovering the neighbours of a vertex (fixed-order solver).\<close>

fun cover_list :: "int list \<Rightarrow> (int \<Rightarrow> int) \<times> int \<Rightarrow> ((int \<Rightarrow> int) \<times> int) option" where
  "cover_list [] ct = Some ct"
| "cover_list (k # ks) (cov, tc) =
     (if \<not> in_array k then None
      else cover_list ks (cov(k := cov k + 1), if cov k = 0 then tc + 1 else tc))"

fun uncover_list :: "int list \<Rightarrow> (int \<Rightarrow> int) \<times> int \<Rightarrow> ((int \<Rightarrow> int) \<times> int) option" where
  "uncover_list [] ct = Some ct"
| "uncover_list (k # ks) (cov, tc) =
     (if \<not> in_array k then None
      else uncover_list ks (cov(k := cov k - 1), if cov k - 1 = 0 then tc - 1 else tc))"

section \<open>The fixed-order solver (bbt\_fixed\_order.cpp)\<close>

record fo_state = bbt_state +
  max_deg :: int

text \<open>\<open>max_deg\<close> is never reset: the loop starts from the value the object already holds.\<close>

definition compute_max_deg :: "Graph \<Rightarrow> int \<Rightarrow> int" where
  "compute_max_deg g md = fold (\<lambda>vx m. max m (vdeg vx)) g md"

text \<open>\<^verbatim>\<open>while(covered[i]) i++;\<close> on an array of \<open>MAX_VERTS\<close> cells.\<close>

function next_uncovered :: "(int \<Rightarrow> int) \<Rightarrow> int \<Rightarrow> int option" where
  "next_uncovered cov i =
     (if \<not> in_array i then None
      else if cov i \<noteq> 0 then next_uncovered cov (i + 1)
      else Some i)"
  by pat_completeness auto
termination
  by (relation "measure (\<lambda>(cov, i). nat (MAX_VERTS - i))") (auto simp: in_array_def)

declare next_uncovered.simps [simp del]

text \<open>
  The candidates of a pivot \<open>i\<close>: \<open>i\<close> itself, then its uncovered neighbours, then its
  covered neighbours, the fixed ones left out.
\<close>

definition fo_neighbour_array :: "Graph \<Rightarrow> int \<Rightarrow> 'a bbt_state_scheme \<Rightarrow> int list option" where
  "fo_neighbour_array g i s =
     do {
       vx \<leftarrow> vertex_at g i;
       if in_array i \<and> list_all in_array (neighbours vx)
       then Some ((if fixed s i = 0 then [i] else [])
                  @ filter (\<lambda>j. fixed s j = 0 \<and> covered s j = 0 \<and> j \<noteq> i) (neighbours vx)
                  @ filter (\<lambda>j. fixed s j = 0 \<and> covered s j \<noteq> 0) (neighbours vx))
       else None
     }"

text \<open>
  \<^verbatim>\<open>add_vertex_to_set(G, i, j, fixed_list, num_fixed)\<close>; \<open>search\<close> stands for the recursive
  call \<^verbatim>\<open>FindDominatingSet<check_resmod_depth>(G, i+1)\<close>.
\<close>

definition add_vertex_to_set_fo ::
  "(int \<Rightarrow> fo_state \<Rightarrow> fo_state outcome) \<Rightarrow> Graph \<Rightarrow> int \<Rightarrow> int \<Rightarrow> int list \<Rightarrow> fo_state
   \<Rightarrow> (int list \<times> fo_state) outcome" where
  "add_vertex_to_set_fo search g i j fixed_list s =
     (if \<not> in_array j then abort Undefined s
      else
        let s1 = s\<lparr>fixed := (fixed s)(j := 1), total_fixed := total_fixed s + 1\<rparr>;
            fixed_list' = fixed_list @ [j]
        in case vs_add j (D s1) of
             None \<Rightarrow> abort Undefined s1
           | Some d1 \<Rightarrow>
        (case vertex_at g j of
             None \<Rightarrow> abort Undefined s1
           | Some vx \<Rightarrow>
        (case cover_list (neighbours vx) (covered s1, total_covered s1) of
             None \<Rightarrow> abort Undefined s1
           | Some (cov, tc) \<Rightarrow>
        (case search (i + 1) (s1\<lparr>D := d1, covered := cov, total_covered := tc\<rparr>) of
             Inl e \<Rightarrow> Inl e
           | Inr s2 \<Rightarrow>
        (case uncover_list (neighbours vx) (covered s2, total_covered s2) of
             None \<Rightarrow> abort Undefined s2
           | Some (cov', tc') \<Rightarrow>
        (case remove_pop j (D s2) of
             None \<Rightarrow> abort Undefined s2
           | Some d2 \<Rightarrow>
             Inr (fixed_list', s2\<lparr>covered := cov', total_covered := tc', D := d2\<rparr>)))))))"

fun fo_branch_loop ::
  "(int \<Rightarrow> fo_state \<Rightarrow> fo_state outcome) \<Rightarrow> Graph \<Rightarrow> int \<Rightarrow> int list \<Rightarrow> int list \<Rightarrow> fo_state
   \<Rightarrow> (int list \<times> fo_state) outcome" where
  "fo_branch_loop search g i [] fixed_list s = Inr (fixed_list, s)"
| "fo_branch_loop search g i (j # js) fixed_list s =
     (case add_vertex_to_set_fo search g i j fixed_list s of
        Inl e \<Rightarrow> Inl e
      | Inr (fixed_list', s') \<Rightarrow> fo_branch_loop search g i js fixed_list' s')"

text \<open>\<^verbatim>\<open>for(int q = num_fixed - 1; q >= 0; q--)\<close>: the flags are cleared last to first.\<close>

definition fo_unfix :: "int list \<Rightarrow> 'a bbt_state_scheme \<Rightarrow> 'a bbt_state_scheme" where
  "fo_unfix fixed_list s =
     fold (\<lambda>j t. t\<lparr>fixed := (fixed t)(j := 0), total_fixed := total_fixed t - 1\<rparr>) (rev fixed_list) s"

text \<open>
  The body of \<^verbatim>\<open>FindDominatingSet\<close> after the res/mod accounting. The bound is
  \<^verbatim>\<open>(n-total_covered + max_deg)/(max_deg+1)\<close>, a truncating division.
\<close>

definition fo_body ::
  "(int \<Rightarrow> fo_state \<Rightarrow> fo_state outcome) \<Rightarrow> bool \<Rightarrow> Settings \<Rightarrow> Graph \<Rightarrow> int \<Rightarrow> fo_state
   \<Rightarrow> fo_state outcome" where
  "fo_body search GENERATE_ALL st g i s =
     (let n = Graph_n g in
      if total_covered s = n then Inr (record_solution GENERATE_ALL st s)
      else case next_uncovered (covered s) i of
             None \<Rightarrow> abort Undefined s
           | Some i' \<Rightarrow>
        if i' \<ge> n then abort ConfigurableError s
        else if max_deg s + 1 = 0 then abort Undefined s
        else
          let min_vertices_needed = (n - total_covered s + max_deg s) sdiv (max_deg s + 1);
              min_total_size = vs_size (D s) + min_vertices_needed
          in if (if GENERATE_ALL
                 then u32 min_total_size > total_upper_bound st \<or> n - total_fixed s < min_vertices_needed
                 else min_total_size \<ge> vs_size (B s) \<or> n - total_fixed s < min_vertices_needed)
             then Inr s
             else case fo_neighbour_array g i' s of
                    None \<Rightarrow> abort Undefined s
                  | Some neighbour_array \<Rightarrow>
                      (case fo_branch_loop search g i' neighbour_array [] s of
                         Inl e \<Rightarrow> Inl e
                       | Inr (fixed_list, s') \<Rightarrow> Inr (fo_unfix fixed_list s')))"

text \<open>
  \<^verbatim>\<open>FindDominatingSet<check_resmod_depth>(G, i)\<close>. The recursion depth of the model is
  bounded by the first argument. When the res/mod depth is reached, the source calls the
  \<^verbatim>\<open>false\<close> instance on the same node; that call is unfolded here (its \<^verbatim>\<open>report_node\<close>
  returns 1).
\<close>

fun FindDominatingSet_fo ::
  "nat \<Rightarrow> bool \<Rightarrow> Settings \<Rightarrow> Graph \<Rightarrow> bool \<Rightarrow> int \<Rightarrow> fo_state \<Rightarrow> fo_state outcome" where
  "FindDominatingSet_fo 0 GENERATE_ALL st g chk i s = abort OutOfFuel s"
| "FindDominatingSet_fo (Suc k) GENERATE_ALL st g chk i s =
     (case report_node chk st (vs_size (D s)) (depth_log s) of
        None \<Rightarrow> abort Undefined s
      | Some (resmod_check, dl) \<Rightarrow>
          if resmod_check = 0 then Inr (s\<lparr>depth_log := dl\<rparr>)
          else if chk \<and> resmod_check = 1
          then (case unreport_node (vs_size (D s)) dl of
                  None \<Rightarrow> abort Undefined s
                | Some dl1 \<Rightarrow>
                    (case report_node False st (vs_size (D s)) dl1 of
                       None \<Rightarrow> abort Undefined s
                     | Some (resmod_check2, dl2) \<Rightarrow>
                         if resmod_check2 = 0 then Inr (s\<lparr>depth_log := dl2\<rparr>)
                         else fo_body (FindDominatingSet_fo k GENERATE_ALL st g False)
                                GENERATE_ALL st g i (s\<lparr>depth_log := dl2\<rparr>)))
          else fo_body (FindDominatingSet_fo k GENERATE_ALL st g chk)
                 GENERATE_ALL st g i (s\<lparr>depth_log := dl\<rparr>))"

text \<open>The two loops of \<^verbatim>\<open>solve\<close> over the forced vertices.\<close>

fun fo_force_in :: "Graph \<Rightarrow> int list \<Rightarrow> fo_state \<Rightarrow> fo_state option" where
  "fo_force_in g [] s = Some s"
| "fo_force_in g (v # vs) s =
     do {
       d1 \<leftarrow> vs_add v (D s);
       vx \<leftarrow> vertex_at g v;
       (cov, tc) \<leftarrow> cover_list (neighbours vx) (covered s, total_covered s);
       fo_force_in g vs (s\<lparr>D := d1, covered := cov, total_covered := tc\<rparr>)
     }"

fun fo_force_out :: "int list \<Rightarrow> fo_state \<Rightarrow> fo_state option" where
  "fo_force_out [] s = Some s"
| "fo_force_out (v # vs) s =
     (if \<not> in_array v then None
      else fo_force_out vs (s\<lparr>fixed := (fixed s)(v := 1), total_fixed := total_fixed s + 1\<rparr>))"

text \<open>
  \<^verbatim>\<open>BBTFixedOrderSolver<GENERATE_ALL>::solve\<close>. The argument \<open>s\<close> is the solver object as
  the previous call left it; \<open>fo_init\<close> is the state in which the search starts.
\<close>

definition fo_init :: "bool \<Rightarrow> Settings \<Rightarrow> DominationInstance \<Rightarrow> fo_state \<Rightarrow> (Graph \<times> fo_state) option" where
  "fo_init GENERATE_ALL st inst s =
     (let g = sort_neighbours_descending (add_loops (G inst));
          n = Graph_n g
      in do {
        b \<leftarrow> init_B GENERATE_ALL st n n (B s);
        let s1 = s\<lparr>D := reset_empty (D s), B := b, max_deg := compute_max_deg g (max_deg s),
                   covered := (\<lambda>_. 0), fixed := (\<lambda>_. 0), total_covered := 0, total_fixed := 0,
                   out := []\<rparr>;
        s2 \<leftarrow> fo_force_in g (vs_list (force_in inst)) s1;
        s3 \<leftarrow> fo_force_out (vs_list (force_out inst)) s2;
        Some (g, s3\<lparr>depth_log := (\<lambda>_. 0)\<rparr>)
      })"

definition solve_fo :: "nat \<Rightarrow> bool \<Rightarrow> Settings \<Rightarrow> DominationInstance \<Rightarrow> fo_state \<Rightarrow> fo_state outcome" where
  "solve_fo fuel GENERATE_ALL st inst s =
     (case fo_init GENERATE_ALL st inst s of
        None \<Rightarrow> Inl (Undefined, [])
      | Some (g, s0) \<Rightarrow> FindDominatingSet_fo fuel GENERATE_ALL st g True 0 s0)"

text \<open>The solver object that the factory creates (value-initialised).\<close>

definition new_fo_solver :: fo_state where
  "new_fo_solver =
     \<lparr>D = new_VertexSet, B = new_VertexSet, covered = (\<lambda>_. 0), fixed = (\<lambda>_. 0),
      total_covered = 0, total_fixed = 0, depth_log = (\<lambda>_. 0), out = [], max_deg = 0\<rparr>"

text \<open>The instance \<open>K\<^sub>1\<close>: one vertex, no edge, no forced vertex.\<close>

definition K1 :: DominationInstance where
  "K1 = \<lparr>G = [new_vertex 0], force_in = new_VertexSet, force_out = new_VertexSet\<rparr>"

section \<open>DegreePQ (bbt\_degreepq.hpp)\<close>

text \<open>
  The rank nodes and the vertex nodes live in two arrays and point at each other. A
  pointer to a rank node is null, the address of the sentinel \<^verbatim>\<open>head_tail\<close>, or the
  address of \<^verbatim>\<open>nodes[i]\<close>; a pointer to a vertex node is null, the address of the
  sentinel inside a rank node, or the address of \<^verbatim>\<open>vertices[v]\<close>. A pointer that was
  never initialised is modelled as null: reading through either is undefined.
\<close>

datatype node_ptr = NodeNull | NodeHT | NodeAt int

datatype vert_ptr = VertNull | VertSentinel node_ptr | VertAt int

record PQVertex =
  v_next :: vert_ptr
  v_prev :: vert_ptr
  degree_node :: node_ptr
  v_index :: int
  is_fixed :: bool
  is_dominated :: bool

text \<open>
  \<open>und_head_tail\<close> is the member \<^verbatim>\<open>head_tail\<close> of \<^verbatim>\<open>PQNode\<close>; \<^verbatim>\<open>undominated_head\<close> and
  \<^verbatim>\<open>undominated_tail\<close> are references to its \<^verbatim>\<open>next\<close> and \<^verbatim>\<open>prev\<close>.
\<close>

record PQNode =
  n_next :: node_ptr
  n_prev :: node_ptr
  deg :: int
  count :: int
  unfixed_count :: int
  undominated_count :: int
  und_head_tail :: PQVertex

text \<open>\<^verbatim>\<open>head\<close> and \<^verbatim>\<open>tail\<close> are references to \<^verbatim>\<open>head_tail.next\<close> and \<^verbatim>\<open>head_tail.prev\<close>.\<close>

record DegreePQ =
  dpq_n :: int
  head_tail :: PQNode
  nodes :: "int \<Rightarrow> PQNode"
  vertices :: "int \<Rightarrow> PQVertex"

definition get_node :: "DegreePQ \<Rightarrow> node_ptr \<Rightarrow> PQNode option" where
  "get_node q p =
     (case p of
        NodeNull \<Rightarrow> None
      | NodeHT \<Rightarrow> Some (head_tail q)
      | NodeAt i \<Rightarrow> if in_array i then Some (nodes q i) else None)"

definition set_node :: "DegreePQ \<Rightarrow> node_ptr \<Rightarrow> PQNode \<Rightarrow> DegreePQ option" where
  "set_node q p nd =
     (case p of
        NodeNull \<Rightarrow> None
      | NodeHT \<Rightarrow> Some (q\<lparr>head_tail := nd\<rparr>)
      | NodeAt i \<Rightarrow> if in_array i then Some (q\<lparr>nodes := (nodes q)(i := nd)\<rparr>) else None)"

definition upd_node :: "node_ptr \<Rightarrow> (PQNode \<Rightarrow> PQNode) \<Rightarrow> DegreePQ \<Rightarrow> DegreePQ option" where
  "upd_node p f q = do { nd \<leftarrow> get_node q p; set_node q p (f nd) }"

definition get_vert :: "DegreePQ \<Rightarrow> vert_ptr \<Rightarrow> PQVertex option" where
  "get_vert q p =
     (case p of
        VertNull \<Rightarrow> None
      | VertSentinel np \<Rightarrow> map_option und_head_tail (get_node q np)
      | VertAt v \<Rightarrow> if in_array v then Some (vertices q v) else None)"

definition upd_vert :: "vert_ptr \<Rightarrow> (PQVertex \<Rightarrow> PQVertex) \<Rightarrow> DegreePQ \<Rightarrow> DegreePQ option" where
  "upd_vert p f q =
     (case p of
        VertNull \<Rightarrow> None
      | VertSentinel np \<Rightarrow> upd_node np (\<lambda>nd. nd\<lparr>und_head_tail := f (und_head_tail nd)\<rparr>) q
      | VertAt v \<Rightarrow> if in_array v then Some (q\<lparr>vertices := (vertices q)(v := f (vertices q v))\<rparr>) else None)"

text \<open>
  \<^verbatim>\<open>splice_in\<close>: the chained assignment
  \<^verbatim>\<open>vertex_node.next->prev = vertex_node.prev->next = &vertex_node\<close> writes through
  \<^verbatim>\<open>prev\<close> first.
\<close>

definition splice_in :: "int \<Rightarrow> DegreePQ \<Rightarrow> DegreePQ option" where
  "splice_in v q =
     do {
       vertex_node \<leftarrow> get_vert q (VertAt v);
       dn \<leftarrow> get_node q (degree_node vertex_node);
       q1 \<leftarrow> upd_vert (VertAt v) (\<lambda>x. x\<lparr>v_next := VertSentinel (degree_node vertex_node)\<rparr>) q;
       q2 \<leftarrow> upd_vert (VertAt v) (\<lambda>x. x\<lparr>v_prev := v_prev (und_head_tail dn)\<rparr>) q1;
       vn2 \<leftarrow> get_vert q2 (VertAt v);
       q3 \<leftarrow> upd_vert (v_prev vn2) (\<lambda>x. x\<lparr>v_next := VertAt v\<rparr>) q2;
       vn3 \<leftarrow> get_vert q3 (VertAt v);
       upd_vert (v_next vn3) (\<lambda>x. x\<lparr>v_prev := VertAt v\<rparr>) q3
     }"

definition splice_out :: "int \<Rightarrow> DegreePQ \<Rightarrow> DegreePQ option" where
  "splice_out v q =
     do {
       vn \<leftarrow> get_vert q (VertAt v);
       q1 \<leftarrow> upd_vert (v_next vn) (\<lambda>x. x\<lparr>v_prev := v_prev vn\<rparr>) q;
       vn1 \<leftarrow> get_vert q1 (VertAt v);
       q2 \<leftarrow> upd_vert (v_prev vn1) (\<lambda>x. x\<lparr>v_next := v_next vn1\<rparr>) q1;
       upd_vert (VertAt v) (\<lambda>x. x\<lparr>v_prev := VertNull, v_next := VertNull\<rparr>) q2
     }"

definition is_candidate :: "DegreePQ \<Rightarrow> int \<Rightarrow> bool option" where
  "is_candidate q v = map_option (\<lambda>x. \<not> is_fixed x) (get_vert q (VertAt v))"

definition ranked_degree :: "DegreePQ \<Rightarrow> int \<Rightarrow> int option" where
  "ranked_degree q v =
     do { vn \<leftarrow> get_vert q (VertAt v); nd \<leftarrow> get_node q (degree_node vn); Some (deg nd) }"

definition dpq_add_candidate :: "int \<Rightarrow> DegreePQ \<Rightarrow> DegreePQ option" where
  "dpq_add_candidate v q =
     do {
       vn \<leftarrow> get_vert q (VertAt v);
       q1 \<leftarrow> upd_node (degree_node vn) (\<lambda>nd. nd\<lparr>unfixed_count := unfixed_count nd + 1\<rparr>) q;
       upd_vert (VertAt v) (\<lambda>x. x\<lparr>is_fixed := False\<rparr>) q1
     }"

definition dpq_remove_candidate :: "int \<Rightarrow> DegreePQ \<Rightarrow> DegreePQ option" where
  "dpq_remove_candidate v q =
     do {
       vn \<leftarrow> get_vert q (VertAt v);
       q1 \<leftarrow> upd_node (degree_node vn) (\<lambda>nd. nd\<lparr>unfixed_count := unfixed_count nd - 1\<rparr>) q;
       upd_vert (VertAt v) (\<lambda>x. x\<lparr>is_fixed := True\<rparr>) q1
     }"

definition dpq_dominate :: "bool \<Rightarrow> int \<Rightarrow> DegreePQ \<Rightarrow> DegreePQ option" where
  "dpq_dominate is_heavy v q =
     do {
       q1 \<leftarrow> upd_vert (VertAt v) (\<lambda>x. x\<lparr>is_dominated := True\<rparr>) q;
       if is_heavy
       then do {
         vn \<leftarrow> get_vert q1 (VertAt v);
         q2 \<leftarrow> upd_node (degree_node vn) (\<lambda>nd. nd\<lparr>undominated_count := undominated_count nd - 1\<rparr>) q1;
         splice_out v q2
       }
       else Some q1
     }"

definition dpq_undominate :: "bool \<Rightarrow> int \<Rightarrow> DegreePQ \<Rightarrow> DegreePQ option" where
  "dpq_undominate is_heavy v q =
     do {
       q1 \<leftarrow> upd_vert (VertAt v) (\<lambda>x. x\<lparr>is_dominated := False\<rparr>) q;
       if is_heavy
       then do {
         vn \<leftarrow> get_vert q1 (VertAt v);
         q2 \<leftarrow> upd_node (degree_node vn) (\<lambda>nd. nd\<lparr>undominated_count := undominated_count nd + 1\<rparr>) q1;
         splice_in v q2
       }
       else Some q1
     }"

text \<open>
  The part of \<^verbatim>\<open>increment\<close> and \<^verbatim>\<open>decrement\<close> that follows the linking of the new rank
  node: the vertex moves to \<open>new_p\<close>, the counters follow, and a drained old node is
  unlinked by \<open>unlink\<close>.
\<close>

definition move_vertex ::
  "bool \<Rightarrow> int \<Rightarrow> node_ptr \<Rightarrow> node_ptr \<Rightarrow> DegreePQ \<Rightarrow> DegreePQ option" where
  "move_vertex is_heavy v old_p new_p q =
     do {
       q1 \<leftarrow> upd_vert (VertAt v) (\<lambda>x. x\<lparr>degree_node := new_p\<rparr>) q;
       q2 \<leftarrow> upd_node new_p (\<lambda>nd. nd\<lparr>count := count nd + 1\<rparr>) q1;
       vn \<leftarrow> get_vert q2 (VertAt v);
       q3 \<leftarrow> (if is_heavy \<and> \<not> is_dominated vn
              then do {
                a \<leftarrow> splice_out v q2;
                b \<leftarrow> splice_in v a;
                c \<leftarrow> upd_node old_p (\<lambda>nd. nd\<lparr>undominated_count := undominated_count nd - 1\<rparr>) b;
                upd_node new_p (\<lambda>nd. nd\<lparr>undominated_count := undominated_count nd + 1\<rparr>) c
              }
              else Some q2);
       vn3 \<leftarrow> get_vert q3 (VertAt v);
       let is_unfixed = (if is_fixed vn3 then 0 else 1);
       q4 \<leftarrow> upd_node old_p (\<lambda>nd. nd\<lparr>unfixed_count := unfixed_count nd - is_unfixed\<rparr>) q3;
       q5 \<leftarrow> upd_node new_p (\<lambda>nd. nd\<lparr>unfixed_count := unfixed_count nd + is_unfixed\<rparr>) q4;
       upd_node old_p (\<lambda>nd. nd\<lparr>count := count nd - 1\<rparr>) q5
     }"

definition increment :: "bool \<Rightarrow> int \<Rightarrow> DegreePQ \<Rightarrow> (int \<times> DegreePQ) option" where
  "increment is_heavy v q =
     do {
       vertex_node \<leftarrow> get_vert q (VertAt v);
       let old_p = degree_node vertex_node;
       old_node \<leftarrow> get_node q old_p;
       let new_deg = deg old_node + 1;
       let new_p = NodeAt new_deg;
       new_node \<leftarrow> get_node q new_p;
       q1 \<leftarrow> (if count new_node = 0
              then do {
                a \<leftarrow> upd_node new_p (\<lambda>nd. nd\<lparr>n_next := n_next old_node\<rparr>) q;
                b \<leftarrow> upd_node new_p (\<lambda>nd. nd\<lparr>n_prev := old_p\<rparr>) a;
                on \<leftarrow> get_node b old_p;
                c \<leftarrow> upd_node (n_next on) (\<lambda>nd. nd\<lparr>n_prev := new_p\<rparr>) b;
                upd_node old_p (\<lambda>nd. nd\<lparr>n_next := new_p\<rparr>) c
              }
              else Some q);
       q2 \<leftarrow> move_vertex is_heavy v old_p new_p q1;
       on2 \<leftarrow> get_node q2 old_p;
       q3 \<leftarrow> (if count on2 = 0
              then do {
                a \<leftarrow> upd_node new_p (\<lambda>nd. nd\<lparr>n_prev := n_prev on2\<rparr>) q2;
                nn \<leftarrow> get_node a new_p;
                b \<leftarrow> upd_node (n_prev nn) (\<lambda>nd. nd\<lparr>n_next := new_p\<rparr>) a;
                upd_node old_p (\<lambda>nd. nd\<lparr>n_prev := NodeNull, n_next := NodeNull\<rparr>) b
              }
              else Some q2);
       Some (new_deg, q3)
     }"

definition decrement :: "bool \<Rightarrow> int \<Rightarrow> DegreePQ \<Rightarrow> (int \<times> DegreePQ) option" where
  "decrement is_heavy v q =
     do {
       vertex_node \<leftarrow> get_vert q (VertAt v);
       let old_p = degree_node vertex_node;
       old_node \<leftarrow> get_node q old_p;
       let new_deg = deg old_node - 1;
       let new_p = NodeAt new_deg;
       new_node \<leftarrow> get_node q new_p;
       q1 \<leftarrow> (if count new_node = 0
              then do {
                a \<leftarrow> upd_node new_p (\<lambda>nd. nd\<lparr>n_next := old_p\<rparr>) q;
                b \<leftarrow> upd_node new_p (\<lambda>nd. nd\<lparr>n_prev := n_prev old_node\<rparr>) a;
                on \<leftarrow> get_node b old_p;
                c \<leftarrow> upd_node (n_prev on) (\<lambda>nd. nd\<lparr>n_next := new_p\<rparr>) b;
                upd_node old_p (\<lambda>nd. nd\<lparr>n_prev := new_p\<rparr>) c
              }
              else Some q);
       q2 \<leftarrow> move_vertex is_heavy v old_p new_p q1;
       on2 \<leftarrow> get_node q2 old_p;
       q3 \<leftarrow> (if count on2 = 0
              then do {
                a \<leftarrow> upd_node new_p (\<lambda>nd. nd\<lparr>n_next := n_next on2\<rparr>) q2;
                nn \<leftarrow> get_node a new_p;
                b \<leftarrow> upd_node (n_next nn) (\<lambda>nd. nd\<lparr>n_prev := new_p\<rparr>) a;
                upd_node old_p (\<lambda>nd. nd\<lparr>n_prev := NodeNull, n_next := NodeNull\<rparr>) b
              }
              else Some q2);
       Some (new_deg, q3)
     }"

definition get_min_degree :: "DegreePQ \<Rightarrow> int option" where
  "get_min_degree q = map_option deg (get_node q (n_next (head_tail q)))"

definition get_max_degree :: "DegreePQ \<Rightarrow> int option" where
  "get_max_degree q = map_option deg (get_node q (n_prev (head_tail q)))"

text \<open>
  The loop of \<^verbatim>\<open>count_minimum_to_dominate\<close>, from the node \<open>node\<close> on. \<open>None\<close> stands
  for a walk that leaves the arrays or never ends. The division is C's.
\<close>

partial_function (option) count_minimum_loop ::
  "DegreePQ \<Rightarrow> node_ptr \<Rightarrow> int \<Rightarrow> int \<Rightarrow> int option" where
  "count_minimum_loop q node m cnt =
     (case get_node q node of
        None \<Rightarrow> None
      | Some nd \<Rightarrow>
          if deg nd = 0 \<or> deg nd = INVALID_VERTEX then Some (MAX_VERTS + 1)
          else let vertices_needed = (m + deg nd - 1) sdiv deg nd
               in if vertices_needed \<le> unfixed_count nd then Some (cnt + vertices_needed)
                  else count_minimum_loop q (n_prev nd) (m - deg nd * unfixed_count nd)
                         (cnt + unfixed_count nd))"

declare count_minimum_loop.simps [code]

definition count_minimum_to_dominate :: "DegreePQ \<Rightarrow> int \<Rightarrow> int option" where
  "count_minimum_to_dominate q m = count_minimum_loop q (n_prev (head_tail q)) m 0"

text \<open>The scans of the heavy queue for an undominated vertex of least or greatest rank.\<close>

partial_function (option) min_undominated_loop :: "DegreePQ \<Rightarrow> node_ptr \<Rightarrow> int option" where
  "min_undominated_loop q node =
     (case get_node q node of
        None \<Rightarrow> None
      | Some nd \<Rightarrow>
          if deg nd = INVALID_VERTEX then Some INVALID_VERTEX
          else if undominated_count nd = 0 then min_undominated_loop q (n_next nd)
          else map_option v_index (get_vert q (v_next (und_head_tail nd))))"

declare min_undominated_loop.simps [code]

definition get_min_undominated_vertex :: "DegreePQ \<Rightarrow> int option" where
  "get_min_undominated_vertex q = min_undominated_loop q (n_next (head_tail q))"

partial_function (option) max_undominated_loop :: "DegreePQ \<Rightarrow> node_ptr \<Rightarrow> int option" where
  "max_undominated_loop q node =
     (case get_node q node of
        None \<Rightarrow> None
      | Some nd \<Rightarrow>
          if deg nd = INVALID_VERTEX then Some INVALID_VERTEX
          else if undominated_count nd = 0 then max_undominated_loop q (n_prev nd)
          else map_option v_index (get_vert q (v_next (und_head_tail nd))))"

declare max_undominated_loop.simps [code]

definition get_max_undominated_vertex :: "DegreePQ \<Rightarrow> int option" where
  "get_max_undominated_vertex q = max_undominated_loop q (n_prev (head_tail q))"

text \<open>
  The constructor. Before its body runs, every rank node has been built by \<^verbatim>\<open>PQNode()\<close>
  (whose \<^verbatim>\<open>next\<close> and \<^verbatim>\<open>prev\<close> stay uninitialised) and every vertex node by
  \<^verbatim>\<open>PQVertex()\<close>.
\<close>

definition new_PQVertex :: PQVertex where
  "new_PQVertex =
     \<lparr>v_next = VertNull, v_prev = VertNull, degree_node = NodeNull, v_index = 0,
      is_fixed = False, is_dominated = False\<rparr>"

definition new_PQNode :: "node_ptr \<Rightarrow> PQNode" where
  "new_PQNode self =
     \<lparr>n_next = NodeNull, n_prev = NodeNull, deg = 0, count = 0, unfixed_count = 0,
      undominated_count = 0,
      und_head_tail = new_PQVertex\<lparr>v_next := VertSentinel self, v_prev := VertSentinel self,
                                    v_index := INVALID_VERTEX\<rparr>\<rparr>"

fun dpq_init_vertices :: "int list \<Rightarrow> DegreePQ \<Rightarrow> DegreePQ option" where
  "dpq_init_vertices [] q = Some q"
| "dpq_init_vertices (i # is) q =
     do {
       q1 \<leftarrow> upd_vert (VertAt i) (\<lambda>x. x\<lparr>v_index := i, degree_node := NodeAt 0\<rparr>) q;
       q2 \<leftarrow> splice_in i q1;
       dpq_init_vertices is q2
     }"

fun increment_times :: "bool \<Rightarrow> nat \<Rightarrow> int \<Rightarrow> DegreePQ \<Rightarrow> DegreePQ option" where
  "increment_times is_heavy 0 v q = Some q"
| "increment_times is_heavy (Suc k) v q =
     do { (d, q1) \<leftarrow> increment is_heavy v q; increment_times is_heavy k v q1 }"

fun dpq_init_degrees :: "bool \<Rightarrow> Vertex list \<Rightarrow> DegreePQ \<Rightarrow> DegreePQ option" where
  "dpq_init_degrees is_heavy [] q = Some q"
| "dpq_init_degrees is_heavy (vert # vs) q =
     do {
       q1 \<leftarrow> increment_times is_heavy (length (neighbours vert)) (index vert) q;
       dpq_init_degrees is_heavy vs q1
     }"

definition new_DegreePQ :: "bool \<Rightarrow> Graph \<Rightarrow> DegreePQ option" where
  "new_DegreePQ is_heavy g =
     (let n = Graph_n g;
          q0 = \<lparr>dpq_n = n, head_tail = new_PQNode NodeHT,
                nodes = (\<lambda>i. (new_PQNode (NodeAt i))\<lparr>deg := if 0 \<le> i \<and> i < n then i else 0\<rparr>),
                vertices = (\<lambda>_. new_PQVertex)\<rparr>
      in do {
        q1 \<leftarrow> dpq_init_vertices [0..n - 1] q0;
        let q2 = q1\<lparr>head_tail := (head_tail q1)\<lparr>deg := INVALID_VERTEX, count := INVALID_VERTEX,
                     unfixed_count := INVALID_VERTEX, undominated_count := INVALID_VERTEX,
                     n_next := NodeAt 0, n_prev := NodeAt 0\<rparr>\<rparr>;
        let q3 = q2\<lparr>nodes := (nodes q2)(0 := (nodes q2 0)\<lparr>n_next := NodeHT, n_prev := NodeHT,
                     count := n, unfixed_count := n, undominated_count := n\<rparr>)\<rparr>;
        dpq_init_degrees is_heavy g q3
      })"

section \<open>The DD solver (bbt\_dd\_variants.cpp)\<close>

text \<open>The template parameters of a solver variant.\<close>

datatype choose_rule = CHOOSE_VERTEX_MIN_MDD | CHOOSE_VERTEX_MAX_MDD | CHOOSE_VERTEX_MIN_CD | CHOOSE_VERTEX_MAX_CD

datatype rank_rule = RANK_NEIGHBOURS_ASCENDING | RANK_NEIGHBOURS_DESCENDING

record Variant =
  choose_vertex_rule :: choose_rule
  rank_neighbours_rule :: rank_rule
  force_stop_on_trapped_vertex :: bool
  recheck_bounds_in_loop :: bool
  generate_all :: bool

record dpq_state = bbt_state +
  UndominatedDPQ :: DegreePQ

record dd_state = dpq_state +
  CandidateDPQ :: DegreePQ

fun fold_option :: "('a \<Rightarrow> 's \<Rightarrow> 's option) \<Rightarrow> 'a list \<Rightarrow> 's \<Rightarrow> 's option" where
  "fold_option f [] s = Some s"
| "fold_option f (x # xs) s = (case f x s of None \<Rightarrow> None | Some s' \<Rightarrow> fold_option f xs s')"

definition dd_add_candidate :: "Graph \<Rightarrow> int \<Rightarrow> dd_state \<Rightarrow> dd_state option" where
  "dd_add_candidate g v s =
     (if \<not> in_array v then None
      else do {
        ud \<leftarrow> dpq_add_candidate v (UndominatedDPQ s);
        cd \<leftarrow> dpq_add_candidate v (CandidateDPQ s);
        vx \<leftarrow> vertex_at g v;
        cd' \<leftarrow> fold_option (\<lambda>u q. map_option snd (increment True u q)) (neighbours vx) cd;
        Some (s\<lparr>fixed := (fixed s)(v := 0), total_fixed := total_fixed s - 1,
                UndominatedDPQ := ud, CandidateDPQ := cd'\<rparr>)
      })"

text \<open>
  The loop of \<^verbatim>\<open>remove_candidate\<close>: \<open>forced\<close> becomes true when a neighbour that is not
  covered is left without a candidate.
\<close>

fun dd_decrement_candidates ::
  "(int \<Rightarrow> int) \<Rightarrow> int list \<Rightarrow> bool \<times> DegreePQ \<Rightarrow> (bool \<times> DegreePQ) option" where
  "dd_decrement_candidates cov [] fq = Some fq"
| "dd_decrement_candidates cov (u # us) (forced, q) =
     do {
       (d, q') \<leftarrow> decrement True u q;
       dd_decrement_candidates cov us (if d = 0 \<and> cov u = 0 then True else forced, q')
     }"

definition dd_remove_candidate :: "Graph \<Rightarrow> int \<Rightarrow> dd_state \<Rightarrow> (bool \<times> dd_state) option" where
  "dd_remove_candidate g v s =
     (if \<not> in_array v then None
      else do {
        ud \<leftarrow> dpq_remove_candidate v (UndominatedDPQ s);
        cd \<leftarrow> dpq_remove_candidate v (CandidateDPQ s);
        vx \<leftarrow> vertex_at g v;
        (forced, cd') \<leftarrow> dd_decrement_candidates (covered s) (neighbours vx) (False, cd);
        Some (forced, s\<lparr>fixed := (fixed s)(v := 1), total_fixed := total_fixed s + 1,
                        UndominatedDPQ := ud, CandidateDPQ := cd'\<rparr>)
      })"

definition dd_dominate :: "Graph \<Rightarrow> int \<Rightarrow> dd_state \<Rightarrow> dd_state option" where
  "dd_dominate g v s =
     (if \<not> in_array v then None
      else let s1 = s\<lparr>covered := (covered s)(v := covered s v + 1)\<rparr>
           in if covered s1 v > 1 then Some s1
              else do {
                ud \<leftarrow> dpq_dominate False v (UndominatedDPQ s1);
                cd \<leftarrow> dpq_dominate True v (CandidateDPQ s1);
                vx \<leftarrow> vertex_at g v;
                ud' \<leftarrow> fold_option (\<lambda>u q. map_option snd (decrement False u q)) (neighbours vx) ud;
                Some (s1\<lparr>total_covered := total_covered s1 + 1,
                         UndominatedDPQ := ud', CandidateDPQ := cd\<rparr>)
              })"

definition dd_undominate :: "Graph \<Rightarrow> int \<Rightarrow> dd_state \<Rightarrow> dd_state option" where
  "dd_undominate g v s =
     (if \<not> in_array v then None
      else let s1 = s\<lparr>covered := (covered s)(v := covered s v - 1)\<rparr>
           in if covered s1 v > 0 then Some s1
              else do {
                ud \<leftarrow> dpq_undominate False v (UndominatedDPQ s1);
                cd \<leftarrow> dpq_undominate True v (CandidateDPQ s1);
                vx \<leftarrow> vertex_at g v;
                ud' \<leftarrow> fold_option (\<lambda>u q. map_option snd (increment False u q)) (neighbours vx) ud;
                Some (s1\<lparr>total_covered := total_covered s1 - 1,
                         UndominatedDPQ := ud', CandidateDPQ := cd\<rparr>)
              })"

text \<open>
  \<^verbatim>\<open>bounds_satisfied\<close>: \<open>False\<close> prunes the subtree. The comparison with the unsigned
  \<^verbatim>\<open>total_upper_bound\<close> converts \<^verbatim>\<open>min_total_size\<close>.
\<close>

definition bounds_satisfied :: "bool \<Rightarrow> Settings \<Rightarrow> Graph \<Rightarrow> 'a dpq_state_scheme \<Rightarrow> bool option" where
  "bounds_satisfied GENERATE_ALL st g s =
     (let n = Graph_n g in
      do {
        min_vertices_needed \<leftarrow> count_minimum_to_dominate (UndominatedDPQ s) (n - total_covered s);
        let min_total_size = vs_size (D s) + min_vertices_needed;
        if GENERATE_ALL
        then (if u32 min_total_size > total_upper_bound st \<or> n - total_fixed s < min_vertices_needed
              then Some False else Some True)
        else (if min_total_size \<ge> vs_size (B s) \<or> n - total_fixed s < min_vertices_needed
              then Some False else Some True)
      })"

text \<open>
  \<^verbatim>\<open>rank_neighbours\<close> sorts the candidates of the pivot by a bucket sort on a local
  doubly linked ring: \<^verbatim>\<open>all_nodes\<close> holds one node per candidate, \<^verbatim>\<open>head_tail\<close> is a
  sentinel of degree 0, and \<^verbatim>\<open>degrees[d]\<close> points at the node of degree \<open>d\<close> inserted last.
\<close>

datatype nl_ptr = NLNull | NLHeadTail | NLAt int

record NeighbourListNode =
  nl_next :: nl_ptr
  nl_prev :: nl_ptr
  nl_deg :: int
  nl_u :: int

record rank_list =
  all_nodes :: "int \<Rightarrow> NeighbourListNode"
  rl_head_tail :: NeighbourListNode
  degrees :: "int \<Rightarrow> nl_ptr"
  neighbour_count :: int

definition get_nl :: "rank_list \<Rightarrow> nl_ptr \<Rightarrow> NeighbourListNode option" where
  "get_nl rl p =
     (case p of
        NLNull \<Rightarrow> None
      | NLHeadTail \<Rightarrow> Some (rl_head_tail rl)
      | NLAt k \<Rightarrow> if 0 \<le> k \<and> k < neighbour_count rl then Some (all_nodes rl k) else None)"

definition upd_nl :: "nl_ptr \<Rightarrow> (NeighbourListNode \<Rightarrow> NeighbourListNode) \<Rightarrow> rank_list \<Rightarrow> rank_list option" where
  "upd_nl p f rl =
     (case p of
        NLNull \<Rightarrow> None
      | NLHeadTail \<Rightarrow> Some (rl\<lparr>rl_head_tail := f (rl_head_tail rl)\<rparr>)
      | NLAt k \<Rightarrow> if 0 \<le> k \<and> k < neighbour_count rl
                  then Some (rl\<lparr>all_nodes := (all_nodes rl)(k := f (all_nodes rl k))\<rparr>)
                  else None)"

text \<open>\<^verbatim>\<open>while(prevNode->deg > uncovered_deg) prevNode = prevNode->prev;\<close>\<close>

partial_function (option) scan_back :: "rank_list \<Rightarrow> nl_ptr \<Rightarrow> int \<Rightarrow> nl_ptr option" where
  "scan_back rl p d =
     (case get_nl rl p of
        None \<Rightarrow> None
      | Some nd \<Rightarrow> if nl_deg nd > d then scan_back rl (nl_prev nd) d else Some p)"

declare scan_back.simps [code]

text \<open>
  One round of the insertion loop, for the candidate \<open>u\<close> of uncovered degree
  \<open>uncovered_deg\<close>. \<open>v_deg\<close> is the length of \<^verbatim>\<open>all_nodes\<close> and \<open>max_degree + 1\<close> the length
  of \<^verbatim>\<open>degrees\<close>.
\<close>

definition rank_insert :: "int \<Rightarrow> int \<Rightarrow> int \<Rightarrow> int \<Rightarrow> rank_list \<Rightarrow> rank_list option" where
  "rank_insert max_degree v_deg u uncovered_deg rl =
     (if \<not> (0 \<le> neighbour_count rl \<and> neighbour_count rl < v_deg) then None
      else if \<not> (0 \<le> uncovered_deg \<and> uncovered_deg \<le> max_degree) then None
      else
        let node = NLAt (neighbour_count rl);
            rl1 = rl\<lparr>neighbour_count := neighbour_count rl + 1\<rparr>
        in do {
          rl2 \<leftarrow> upd_nl node (\<lambda>x. x\<lparr>nl_deg := uncovered_deg, nl_u := u\<rparr>) rl1;
          prevNode \<leftarrow> (if degrees rl2 uncovered_deg = NLNull
                        then scan_back rl2 (nl_prev (rl_head_tail rl2)) uncovered_deg
                        else Some (degrees rl2 uncovered_deg));
          pn \<leftarrow> get_nl rl2 prevNode;
          rl3 \<leftarrow> upd_nl node (\<lambda>x. x\<lparr>nl_next := nl_next pn\<rparr>) rl2;
          rl4 \<leftarrow> upd_nl node (\<lambda>x. x\<lparr>nl_prev := prevNode\<rparr>) rl3;
          nd4 \<leftarrow> get_nl rl4 node;
          rl5 \<leftarrow> upd_nl (nl_prev nd4) (\<lambda>x. x\<lparr>nl_next := node\<rparr>) rl4;
          nd5 \<leftarrow> get_nl rl5 node;
          rl6 \<leftarrow> upd_nl (nl_next nd5) (\<lambda>x. x\<lparr>nl_prev := node\<rparr>) rl5;
          Some (rl6\<lparr>degrees := (degrees rl6)(uncovered_deg := node)\<rparr>)
        })"

text \<open>
  The two output loops, \<^verbatim>\<open>for(node = head_tail.prev; node->deg != 0; node = node->prev)\<close>
  and its mirror image; \<open>arr\<close> is the part of \<^verbatim>\<open>neighbour_array\<close> written so far.
\<close>

partial_function (option) collect_descending :: "rank_list \<Rightarrow> nl_ptr \<Rightarrow> int list \<Rightarrow> int list option" where
  "collect_descending rl p arr =
     (case get_nl rl p of
        None \<Rightarrow> None
      | Some nd \<Rightarrow> if nl_deg nd = 0 then Some arr
                   else collect_descending rl (nl_prev nd) (arr @ [nl_u nd]))"

declare collect_descending.simps [code]

partial_function (option) collect_ascending :: "rank_list \<Rightarrow> nl_ptr \<Rightarrow> int list \<Rightarrow> int list option" where
  "collect_ascending rl p arr =
     (case get_nl rl p of
        None \<Rightarrow> None
      | Some nd \<Rightarrow> if nl_deg nd = 0 then Some arr
                   else collect_ascending rl (nl_next nd) (arr @ [nl_u nd]))"

declare collect_ascending.simps [code]

definition new_rank_list :: "int \<Rightarrow> rank_list" where
  "new_rank_list n =
     \<lparr>all_nodes = (\<lambda>_. \<lparr>nl_next = NLNull, nl_prev = NLNull, nl_deg = 0, nl_u = 0\<rparr>),
      rl_head_tail = \<lparr>nl_next = NLHeadTail, nl_prev = NLHeadTail, nl_deg = 0, nl_u = n\<rparr>,
      degrees = (\<lambda>_. NLNull), neighbour_count = 0\<rparr>"

text \<open>
  The sort proper, on the candidates \<open>cands\<close> in the order in which the source visits them.
  It returns the entries written to \<^verbatim>\<open>neighbour_array\<close> and \<^verbatim>\<open>neighbour_count\<close>.
\<close>

definition rank_candidates ::
  "rank_rule \<Rightarrow> int \<Rightarrow> DegreePQ \<Rightarrow> int \<Rightarrow> int list \<Rightarrow> (int list \<times> int) option" where
  "rank_candidates rule n q v_deg cands =
     do {
       max_degree \<leftarrow> get_max_degree q;
       rl \<leftarrow> fold_option
               (\<lambda>u rl. do { uncovered_deg \<leftarrow> ranked_degree q u;
                            rank_insert max_degree v_deg u uncovered_deg rl })
               cands (new_rank_list n);
       arr \<leftarrow> (case rule of
                 RANK_NEIGHBOURS_DESCENDING \<Rightarrow> collect_descending rl (nl_prev (rl_head_tail rl)) []
               | RANK_NEIGHBOURS_ASCENDING \<Rightarrow> collect_ascending rl (nl_next (rl_head_tail rl)) []);
       Some (arr, neighbour_count rl)
     }"

text \<open>The DD solver visits the neighbours of the pivot and skips the fixed ones.\<close>

definition rank_neighbours_dd ::
  "rank_rule \<Rightarrow> Graph \<Rightarrow> int \<Rightarrow> 'a dpq_state_scheme \<Rightarrow> (int list \<times> int) option" where
  "rank_neighbours_dd rule g v s =
     do {
       vx \<leftarrow> vertex_at g v;
       if list_all in_array (neighbours vx)
       then rank_candidates rule (Graph_n g) (UndominatedDPQ s) (vdeg vx)
              (filter (\<lambda>u. fixed s u = 0) (neighbours vx))
       else None
     }"

text \<open>
  \<^verbatim>\<open>add_vertex_to_set(G, j, fixed_list, num_fixed)\<close> of the DD solver; \<open>search\<close> is the
  recursive call. It returns \<open>forced\<close>, the extended \<open>fixed_list\<close> and the state.
\<close>

definition lift_option :: "'a bbt_state_scheme \<Rightarrow> 'b option \<Rightarrow> 'b outcome" where
  "lift_option s x = (case x of None \<Rightarrow> abort Undefined s | Some y \<Rightarrow> Inr y)"

definition add_vertex_to_set_dd ::
  "(dd_state \<Rightarrow> dd_state outcome) \<Rightarrow> Graph \<Rightarrow> int \<Rightarrow> int list \<Rightarrow> dd_state
   \<Rightarrow> (bool \<times> int list \<times> dd_state) outcome" where
  "add_vertex_to_set_dd search g j fixed_list s =
     (case lift_option s
             (do {
                (forced, s1) \<leftarrow> dd_remove_candidate g j s;
                d1 \<leftarrow> vs_add j (D s1);
                vx \<leftarrow> vertex_at g j;
                s2 \<leftarrow> fold_option (dd_dominate g) (neighbours vx) (s1\<lparr>D := d1\<rparr>);
                Some (forced, vx, s2)
              }) of
        Inl e \<Rightarrow> Inl e
      | Inr (forced, vx, s2) \<Rightarrow>
          (case search s2 of
             Inl e \<Rightarrow> Inl e
           | Inr s3 \<Rightarrow>
               lift_option s3
                 (do {
                    s4 \<leftarrow> fold_option (dd_undominate g) (rev (neighbours vx)) s3;
                    d2 \<leftarrow> remove_pop j (D s4);
                    Some (forced, fixed_list @ [j], s4\<lparr>D := d2\<rparr>)
                  })))"

text \<open>The branching loop with its two \<^verbatim>\<open>break\<close>s.\<close>

fun dd_branch_loop ::
  "(dd_state \<Rightarrow> dd_state outcome) \<Rightarrow> Variant \<Rightarrow> Settings \<Rightarrow> Graph \<Rightarrow> int list \<Rightarrow> int list \<Rightarrow> dd_state
   \<Rightarrow> (int list \<times> dd_state) outcome" where
  "dd_branch_loop search var st g [] fixed_list s = Inr (fixed_list, s)"
| "dd_branch_loop search var st g (j # js) fixed_list s =
     (case (if recheck_bounds_in_loop var
            then lift_option s (bounds_satisfied (generate_all var) st g s)
            else Inr True) of
        Inl e \<Rightarrow> Inl e
      | Inr ok \<Rightarrow>
          if \<not> ok then Inr (fixed_list, s)
          else (case add_vertex_to_set_dd search g j fixed_list s of
                  Inl e \<Rightarrow> Inl e
                | Inr (force_stop, fixed_list', s') \<Rightarrow>
                    if force_stop_on_trapped_vertex var \<and> force_stop then Inr (fixed_list', s')
                    else dd_branch_loop search var st g js fixed_list' s'))"

text \<open>
  The two shapes of the loop that releases the banned siblings after the branching loop:
  \<^verbatim>\<open>for(int q = 0; q < num_fixed; q++)\<close> in the DD solver and
  \<^verbatim>\<open>for(int q = num_fixed - 1; q >= 0; q--)\<close> in the MDD solver, around the body \<open>body\<close>.
\<close>

function restore_upwards ::
  "(int \<Rightarrow> 's \<Rightarrow> 's option) \<Rightarrow> int list \<Rightarrow> int \<Rightarrow> 's \<Rightarrow> 's option" where
  "restore_upwards body fixed_list q s =
     (if 0 \<le> q \<and> q < int (length fixed_list)
      then (case body (fixed_list ! nat q) s of
              None \<Rightarrow> None
            | Some s' \<Rightarrow> restore_upwards body fixed_list (q + 1) s')
      else Some s)"
  by pat_completeness auto
termination
  by (relation "measure (\<lambda>(body, fixed_list, q, s). nat (int (length fixed_list) - q))") auto

declare restore_upwards.simps [simp del]

function restore_downwards ::
  "(int \<Rightarrow> 's \<Rightarrow> 's option) \<Rightarrow> int list \<Rightarrow> int \<Rightarrow> 's \<Rightarrow> 's option" where
  "restore_downwards body fixed_list q s =
     (if 0 \<le> q \<and> q < int (length fixed_list)
      then (case body (fixed_list ! nat q) s of
              None \<Rightarrow> None
            | Some s' \<Rightarrow> restore_downwards body fixed_list (q - 1) s')
      else Some s)"
  by pat_completeness auto
termination
  by (relation "measure (\<lambda>(body, fixed_list, q, s). nat (q + 1))") auto

declare restore_downwards.simps [simp del]

definition dd_restore :: "Graph \<Rightarrow> int list \<Rightarrow> dd_state \<Rightarrow> dd_state option" where
  "dd_restore g fixed_list s = restore_upwards (dd_add_candidate g) fixed_list 0 s"

definition dd_choose_vertex :: "Variant \<Rightarrow> dd_state \<Rightarrow> int option" where
  "dd_choose_vertex var s =
     (case choose_vertex_rule var of
        CHOOSE_VERTEX_MIN_CD \<Rightarrow> get_min_undominated_vertex (CandidateDPQ s)
      | CHOOSE_VERTEX_MAX_CD \<Rightarrow> get_max_undominated_vertex (CandidateDPQ s)
      | _ \<Rightarrow> Some INVALID_VERTEX)"

definition dd_body ::
  "(dd_state \<Rightarrow> dd_state outcome) \<Rightarrow> Variant \<Rightarrow> Settings \<Rightarrow> Graph \<Rightarrow> dd_state \<Rightarrow> dd_state outcome" where
  "dd_body search var st g s =
     (let n = Graph_n g in
      if total_covered s = n then Inr (record_solution (generate_all var) st s)
      else case dd_choose_vertex var s of
             None \<Rightarrow> abort Undefined s
           | Some i \<Rightarrow>
        if i = INVALID_VERTEX then Inr s
        else case vertex_at g i of
               None \<Rightarrow> abort Undefined s
             | Some vx \<Rightarrow>
          (case (if \<not> recheck_bounds_in_loop var
                 then lift_option s (bounds_satisfied (generate_all var) st g s)
                 else Inr True) of
             Inl e \<Rightarrow> Inl e
           | Inr ok \<Rightarrow>
               if \<not> ok then Inr s
               else case rank_neighbours_dd (rank_neighbours_rule var) g i s of
                      None \<Rightarrow> abort Undefined s
                    | Some (neighbour_array, num_neighbours) \<Rightarrow>
                        if int (length neighbour_array) \<noteq> num_neighbours then abort Undefined s
                        else (case dd_branch_loop search var st g neighbour_array [] s of
                                Inl e \<Rightarrow> Inl e
                              | Inr (fixed_list, s') \<Rightarrow> lift_option s' (dd_restore g fixed_list s'))))"

fun FindDominatingSet_dd ::
  "nat \<Rightarrow> Variant \<Rightarrow> Settings \<Rightarrow> Graph \<Rightarrow> bool \<Rightarrow> dd_state \<Rightarrow> dd_state outcome" where
  "FindDominatingSet_dd 0 var st g chk s = abort OutOfFuel s"
| "FindDominatingSet_dd (Suc k) var st g chk s =
     (case report_node chk st (vs_size (D s)) (depth_log s) of
        None \<Rightarrow> abort Undefined s
      | Some (resmod_check, dl) \<Rightarrow>
          if resmod_check = 0 then Inr (s\<lparr>depth_log := dl\<rparr>)
          else if chk \<and> resmod_check = 1
          then (case unreport_node (vs_size (D s)) dl of
                  None \<Rightarrow> abort Undefined s
                | Some dl1 \<Rightarrow>
                    (case report_node False st (vs_size (D s)) dl1 of
                       None \<Rightarrow> abort Undefined s
                     | Some (resmod_check2, dl2) \<Rightarrow>
                         if resmod_check2 = 0 then Inr (s\<lparr>depth_log := dl2\<rparr>)
                         else dd_body (FindDominatingSet_dd k var st g False)
                                var st g (s\<lparr>depth_log := dl2\<rparr>)))
          else dd_body (FindDominatingSet_dd k var st g chk) var st g (s\<lparr>depth_log := dl\<rparr>))"

text \<open>\<^verbatim>\<open>BBTDDSolverVariant::solve\<close>; \<open>b0\<close> and \<open>d0\<close> are the sets of the solver object.\<close>

definition dd_force_in :: "Graph \<Rightarrow> int \<Rightarrow> dd_state \<Rightarrow> dd_state option" where
  "dd_force_in g v s =
     do {
       (forced, s1) \<leftarrow> dd_remove_candidate g v s;
       d1 \<leftarrow> vs_add v (D s1);
       vx \<leftarrow> vertex_at g v;
       fold_option (dd_dominate g) (neighbours vx) (s1\<lparr>D := d1\<rparr>)
     }"

definition dd_init :: "Variant \<Rightarrow> Settings \<Rightarrow> DominationInstance \<Rightarrow> VertexSet \<Rightarrow> VertexSet \<Rightarrow> (Graph \<times> dd_state) option" where
  "dd_init var st inst d0 b0 =
     (let g = sort_neighbours_descending (add_loops (G inst));
          n = Graph_n g
      in do {
        b \<leftarrow> init_B (generate_all var) st n (n - 1) b0;
        ud \<leftarrow> new_DegreePQ False g;
        cd \<leftarrow> new_DegreePQ True g;
        let s1 = \<lparr>D = reset_empty d0, B = b, covered = (\<lambda>_. 0), fixed = (\<lambda>_. 0),
                  total_covered = 0, total_fixed = 0, depth_log = (\<lambda>_. 0), out = [],
                  UndominatedDPQ = ud, CandidateDPQ = cd\<rparr>;
        s2 \<leftarrow> fold_option (dd_force_in g) (vs_list (force_in inst)) s1;
        s3 \<leftarrow> fold_option (\<lambda>v t. map_option snd (dd_remove_candidate g v t)) (vs_list (force_out inst)) s2;
        Some (g, s3)
      })"

definition solve_dd :: "nat \<Rightarrow> Variant \<Rightarrow> Settings \<Rightarrow> DominationInstance \<Rightarrow> VertexSet \<Rightarrow> VertexSet \<Rightarrow> dd_state outcome" where
  "solve_dd fuel var st inst d0 b0 =
     (case dd_init var st inst d0 b0 of
        None \<Rightarrow> Inl (Undefined, [])
      | Some (g, s0) \<Rightarrow> FindDominatingSet_dd fuel var st g True s0)"

text \<open>The variants that the file registers.\<close>

definition DD_minCD_asc :: Variant where
  "DD_minCD_asc = \<lparr>choose_vertex_rule = CHOOSE_VERTEX_MIN_CD, rank_neighbours_rule = RANK_NEIGHBOURS_ASCENDING,
     force_stop_on_trapped_vertex = False, recheck_bounds_in_loop = False, generate_all = False\<rparr>"

definition DD_minCD_desc :: Variant where
  "DD_minCD_desc = DD_minCD_asc\<lparr>rank_neighbours_rule := RANK_NEIGHBOURS_DESCENDING\<rparr>"

section \<open>MDDStack (bbt\_mddstack.hpp)\<close>

definition INVALID_MDD :: int where
  "INVALID_MDD = 0x7fffffff"

record StackEntry =
  vertex :: int
  old_mdd :: int

record StackRow =
  entries :: "int \<Rightarrow> StackEntry"
  row_size :: int
  dominator :: int

record MDDStack =
  stack_size :: int
  stack :: "int \<Rightarrow> StackRow"
  mdd_values :: "int \<Rightarrow> int"
  mdd_counts :: "int \<Rightarrow> int"
  max_mdd :: int

text \<open>
  The objects that the stack holds by reference: the graph, the candidate neighbour sets,
  the set of undominated vertices and the uncovered-degree queue.
\<close>

record mdd_env =
  env_G :: Graph
  env_CandidateNeighbours :: "VertexSet list"
  env_UndominatedSet :: VertexSet
  env_UndominatedDPQ :: DegreePQ

definition candidate_neighbour_set :: "VertexSet list \<Rightarrow> int \<Rightarrow> VertexSet option" where
  "candidate_neighbour_set cn v =
     (if 0 \<le> v \<and> v < int (length cn) then Some (cn ! nat v) else None)"

definition get_mdd :: "MDDStack \<Rightarrow> int \<Rightarrow> int option" where
  "get_mdd m v = (if in_array v then Some (mdd_values m v) else None)"

fun max_ranked_degree :: "DegreePQ \<Rightarrow> int list \<Rightarrow> int \<Rightarrow> int option" where
  "max_ranked_degree q [] new_mdd = Some new_mdd"
| "max_ranked_degree q (u # us) new_mdd =
     do { u_DD \<leftarrow> ranked_degree q u; max_ranked_degree q us (max new_mdd u_DD) }"

definition recompute_mdd :: "mdd_env \<Rightarrow> int \<Rightarrow> int option" where
  "recompute_mdd env v =
     do {
       cs \<leftarrow> candidate_neighbour_set (env_CandidateNeighbours env) v;
       max_ranked_degree (env_UndominatedDPQ env) (vs_list cs) 0
     }"

definition new_row :: "int \<Rightarrow> MDDStack \<Rightarrow> MDDStack option" where
  "new_row dv m =
     (if in_array (stack_size m)
      then Some (m\<lparr>stack := (stack m)(stack_size m := (stack m (stack_size m))\<lparr>row_size := 0, dominator := dv\<rparr>),
                   stack_size := stack_size m + 1\<rparr>)
      else None)"

text \<open>\<^verbatim>\<open>pop_row\<close> only asserts that the row belongs to \<open>dominator\<close>.\<close>

definition pop_row :: "int \<Rightarrow> MDDStack \<Rightarrow> MDDStack option" where
  "pop_row dv m =
     (if in_array (stack_size m - 1) then Some (m\<lparr>stack_size := stack_size m - 1\<rparr>) else None)"

text \<open>\<^verbatim>\<open>row.new_entry(vertex, old_mdd)\<close> on the row \<open>r\<close> of the stack.\<close>

definition new_entry :: "int \<Rightarrow> int \<Rightarrow> int \<Rightarrow> MDDStack \<Rightarrow> MDDStack option" where
  "new_entry r u old m =
     (let row = stack m r in
      if in_array r \<and> in_array (row_size row)
      then Some (m\<lparr>stack := (stack m)(r := row\<lparr>entries := (entries row)(row_size row := \<lparr>vertex = u, old_mdd = old\<rparr>),
                                                 row_size := row_size row + 1\<rparr>)\<rparr>)
      else None)"

text \<open>The first loop of \<^verbatim>\<open>add_dominator\<close>, over the neighbours of the new dominator.\<close>

definition clear_neighbour :: "int \<Rightarrow> int \<Rightarrow> MDDStack \<Rightarrow> MDDStack option" where
  "clear_neighbour r u m =
     do {
       old \<leftarrow> get_mdd m u;
       if old = INVALID_MDD then Some m
       else do {
         m1 \<leftarrow> new_entry r u old m;
         if in_array old
         then Some (m1\<lparr>mdd_values := (mdd_values m1)(u := INVALID_MDD),
                       mdd_counts := (mdd_counts m1)(old := mdd_counts m1 old - 1)\<rparr>)
         else None
       }
     }"

text \<open>
  The body shared by the second loop of \<^verbatim>\<open>add_dominator\<close> and by the loop of
  \<^verbatim>\<open>exclude_dominator\<close>: recompute the value of \<open>u\<close> and record the change.
\<close>

definition refresh_mdd :: "mdd_env \<Rightarrow> int \<Rightarrow> int \<Rightarrow> MDDStack \<Rightarrow> MDDStack option" where
  "refresh_mdd env r u m =
     do {
       old \<leftarrow> get_mdd m u;
       new \<leftarrow> recompute_mdd env u;
       if old = new then Some m
       else do {
         m1 \<leftarrow> new_entry r u old m;
         if in_array old \<and> in_array new
         then Some (m1\<lparr>mdd_values := (mdd_values m1)(u := new),
                       mdd_counts := ((mdd_counts m1)(old := mdd_counts m1 old - 1))
                                       (new := ((mdd_counts m1)(old := mdd_counts m1 old - 1)) new + 1)\<rparr>)
         else None
       }
     }"

text \<open>\<^verbatim>\<open>while(mdd_counts[max_mdd] == 0 && max_mdd > 0) max_mdd--;\<close>\<close>

function lower_max_mdd_guarded :: "MDDStack \<Rightarrow> MDDStack option" where
  "lower_max_mdd_guarded m =
     (if \<not> in_array (max_mdd m) then None
      else if mdd_counts m (max_mdd m) = 0 \<and> max_mdd m > 0
           then lower_max_mdd_guarded (m\<lparr>max_mdd := max_mdd m - 1\<rparr>)
           else Some m)"
  by pat_completeness auto
termination
  by (relation "measure (\<lambda>m. nat (max_mdd m))") (auto simp: in_array_def)

declare lower_max_mdd_guarded.simps [simp del]

text \<open>\<^verbatim>\<open>while(mdd_counts[max_mdd] == 0) max_mdd--;\<close> (in \<^verbatim>\<open>exclude_dominator\<close>).\<close>

function lower_max_mdd :: "MDDStack \<Rightarrow> MDDStack option" where
  "lower_max_mdd m =
     (if \<not> in_array (max_mdd m) then None
      else if mdd_counts m (max_mdd m) = 0
           then lower_max_mdd (m\<lparr>max_mdd := max_mdd m - 1\<rparr>)
           else Some m)"
  by pat_completeness auto
termination
  by (relation "measure (\<lambda>m. nat (max_mdd m + 1))") (auto simp: in_array_def)

declare lower_max_mdd.simps [simp del]

definition add_dominator :: "mdd_env \<Rightarrow> int \<Rightarrow> MDDStack \<Rightarrow> MDDStack option" where
  "add_dominator env v m =
     (let r = stack_size m in
      do {
        m1 \<leftarrow> new_row v m;
        vx \<leftarrow> vertex_at (env_G env) v;
        m2 \<leftarrow> fold_option (clear_neighbour r) (neighbours vx) m1;
        m3 \<leftarrow> fold_option (refresh_mdd env r) (vs_list (env_UndominatedSet env)) m2;
        lower_max_mdd_guarded m3
      })"

text \<open>
  The loops of \<^verbatim>\<open>remove_dominator\<close> and \<^verbatim>\<open>unexclude_dominator\<close>: pop the entries of the
  row \<open>r\<close> and write the saved values back. \<open>guarded\<close> is true for \<^verbatim>\<open>remove_dominator\<close>,
  which skips the counter of an \<open>INVALID_MDD\<close> value.
\<close>

function unwind_row :: "bool \<Rightarrow> int \<Rightarrow> int \<Rightarrow> MDDStack \<Rightarrow> (int \<times> MDDStack) option" where
  "unwind_row guarded r highest_new_mdd m =
     (let row = stack m r in
      if row_size row = 0 then Some (highest_new_mdd, m)
      else if \<not> in_array (row_size row - 1) then None
      else
        let entry = entries row (row_size row - 1);
            m1 = m\<lparr>stack := (stack m)(r := row\<lparr>row_size := row_size row - 1\<rparr>)\<rparr>;
            u = vertex entry;
            new = old_mdd entry
        in if \<not> in_array u then None
           else
             let old = mdd_values m1 u;
                 m2 = m1\<lparr>mdd_values := (mdd_values m1)(u := new)\<rparr>
             in if \<not> (guarded \<and> old = INVALID_MDD) \<and> \<not> in_array old then None
                else
                  let counts1 = (if guarded \<and> old = INVALID_MDD then mdd_counts m2
                                 else (mdd_counts m2)(old := mdd_counts m2 old - 1))
                  in if \<not> in_array new then None
                     else unwind_row guarded r (max highest_new_mdd new)
                            (m2\<lparr>mdd_counts := counts1(new := counts1 new + 1)\<rparr>))"
  by pat_completeness auto
termination
  by (relation "measure (\<lambda>(guarded, r, h, m). nat (row_size (stack m r)))")
     (auto simp: in_array_def Let_def)

declare unwind_row.simps [simp del]

definition remove_dominator :: "int \<Rightarrow> MDDStack \<Rightarrow> MDDStack option" where
  "remove_dominator v m =
     do {
       m1 \<leftarrow> pop_row v m;
       (highest_new_mdd, m2) \<leftarrow> unwind_row True (stack_size m1) 0 m1;
       Some (if highest_new_mdd > max_mdd m2 then m2\<lparr>max_mdd := highest_new_mdd\<rparr> else m2)
     }"

definition exclude_step :: "mdd_env \<Rightarrow> int \<Rightarrow> int \<Rightarrow> MDDStack \<Rightarrow> MDDStack option" where
  "exclude_step env r u m =
     do {
       c \<leftarrow> contains (env_UndominatedSet env) u;
       if \<not> c then Some m else refresh_mdd env r u m
     }"

definition exclude_dominator :: "mdd_env \<Rightarrow> int \<Rightarrow> MDDStack \<Rightarrow> MDDStack option" where
  "exclude_dominator env v m =
     (let r = stack_size m in
      do {
        m1 \<leftarrow> new_row v m;
        vx \<leftarrow> vertex_at (env_G env) v;
        m2 \<leftarrow> fold_option (exclude_step env r) (neighbours vx) m1;
        lower_max_mdd m2
      })"

definition unexclude_dominator :: "int \<Rightarrow> MDDStack \<Rightarrow> MDDStack option" where
  "unexclude_dominator v m =
     do {
       m1 \<leftarrow> pop_row v m;
       (highest_new_mdd, m2) \<leftarrow> unwind_row False (stack_size m1) 0 m1;
       Some (if highest_new_mdd > max_mdd m2 then m2\<lparr>max_mdd := highest_new_mdd\<rparr> else m2)
     }"

text \<open>
  \<^verbatim>\<open>min_vertices_needed\<close>. The inner loop \<^verbatim>\<open>while(c > 0){ c -= mdd; verts_needed++; }\<close>
  does not end when \<open>mdd \<le> 0 < c\<close>.
\<close>

function drain :: "int \<Rightarrow> int \<Rightarrow> int \<Rightarrow> (int \<times> int) option" where
  "drain mdd c verts_needed =
     (if c > 0
      then (if mdd \<le> 0 then None else drain mdd (c - mdd) (verts_needed + 1))
      else Some (c, verts_needed))"
  by pat_completeness auto
termination
  by (relation "measure (\<lambda>(mdd, c, verts_needed). nat c)") auto

declare drain.simps [simp del]

function min_vertices_loop :: "MDDStack \<Rightarrow> int \<Rightarrow> int \<Rightarrow> int \<Rightarrow> int option" where
  "min_vertices_loop m mdd c verts_needed =
     (if mdd \<le> max_mdd m
      then (if \<not> in_array mdd then None
            else case drain mdd (c + mdd_counts m mdd) verts_needed of
                   None \<Rightarrow> None
                 | Some (c', verts_needed') \<Rightarrow> min_vertices_loop m (mdd + 1) c' verts_needed')
      else Some verts_needed)"
  by pat_completeness auto
termination
  by (relation "measure (\<lambda>(m, mdd, c, verts_needed). nat (max_mdd m + 1 - mdd))") auto

declare min_vertices_loop.simps [simp del]

definition min_vertices_needed :: "MDDStack \<Rightarrow> int option" where
  "min_vertices_needed m =
     (if mdd_counts m 0 > 0 then Some MAX_VERTS else min_vertices_loop m 0 0 0)"

fun max_mdd_scan :: "MDDStack \<Rightarrow> int list \<Rightarrow> int option" where
  "max_mdd_scan m [] = Some INVALID_VERTEX"
| "max_mdd_scan m (v # vs) =
     do { x \<leftarrow> get_mdd m v; if x = max_mdd m then Some v else max_mdd_scan m vs }"

definition get_max_mdd_vertex :: "mdd_env \<Rightarrow> MDDStack \<Rightarrow> int option" where
  "get_max_mdd_vertex env m = max_mdd_scan m (vs_list (env_UndominatedSet env))"

fun min_mdd_scan :: "MDDStack \<Rightarrow> int list \<Rightarrow> int \<times> int \<Rightarrow> int option" where
  "min_mdd_scan m [] (result, min_mdd) = Some result"
| "min_mdd_scan m (v # vs) (result, min_mdd) =
     do { x \<leftarrow> get_mdd m v;
          min_mdd_scan m vs (if x < min_mdd then (v, x) else (result, min_mdd)) }"

definition get_min_mdd_vertex :: "mdd_env \<Rightarrow> MDDStack \<Rightarrow> int option" where
  "get_min_mdd_vertex env m = min_mdd_scan m (vs_list (env_UndominatedSet env)) (INVALID_VERTEX, MAX_VERTS)"

text \<open>
  The constructor. \<^verbatim>\<open>max_mdd\<close> is assigned only inside
  \<^verbatim>\<open>for (int i = 0; i < n; i++) if (mdd_counts[i] > 0) max_mdd = i;\<close>, so \<open>max_mdd0\<close>, the
  content of the freshly allocated cell, survives when no counter below \<open>n\<close> is positive.
\<close>

definition init_mdd_value :: "mdd_env \<Rightarrow> int \<Rightarrow> MDDStack \<Rightarrow> MDDStack option" where
  "init_mdd_value env v m =
     do {
       v_mdd \<leftarrow> recompute_mdd env v;
       if in_array v \<and> in_array v_mdd
       then Some (m\<lparr>mdd_values := (mdd_values m)(v := v_mdd),
                    mdd_counts := (mdd_counts m)(v_mdd := mdd_counts m v_mdd + 1)\<rparr>)
       else None
     }"

definition new_MDDStack :: "int \<Rightarrow> mdd_env \<Rightarrow> MDDStack option" where
  "new_MDDStack max_mdd0 env =
     (let n = Graph_n (env_G env);
          m0 = \<lparr>stack_size = 0,
                stack = (\<lambda>_. \<lparr>entries = (\<lambda>_. \<lparr>vertex = INVALID_VERTEX, old_mdd = - 1\<rparr>),
                             row_size = 0, dominator = INVALID_VERTEX\<rparr>),
                mdd_values = (\<lambda>_. - 1), mdd_counts = (\<lambda>_. 0), max_mdd = max_mdd0\<rparr>
      in do {
        m1 \<leftarrow> fold_option (init_mdd_value env) (vs_list (env_UndominatedSet env)) m0;
        Some (fold (\<lambda>i m. if mdd_counts m i > 0 then m\<lparr>max_mdd := i\<rparr> else m) [0..n - 1] m1)
      })"

section \<open>The MDD solver (bbt\_mdd\_variants.cpp)\<close>

record mdd_state = dpq_state +
  CandidateNeighbours :: "VertexSet list"
  UndominatedSet :: VertexSet
  mdd_stack :: MDDStack

definition env_of :: "Graph \<Rightarrow> mdd_state \<Rightarrow> mdd_env" where
  "env_of g s =
     \<lparr>env_G = g, env_CandidateNeighbours = CandidateNeighbours s,
      env_UndominatedSet = UndominatedSet s, env_UndominatedDPQ = UndominatedDPQ s\<rparr>"

definition upd_candidate_set ::
  "int \<Rightarrow> (VertexSet \<Rightarrow> VertexSet option) \<Rightarrow> VertexSet list \<Rightarrow> VertexSet list option" where
  "upd_candidate_set u f cn =
     do { cs \<leftarrow> candidate_neighbour_set cn u; cs' \<leftarrow> f cs; Some (cn[nat u := cs']) }"

definition mdd_add_candidate :: "Graph \<Rightarrow> int \<Rightarrow> mdd_state \<Rightarrow> mdd_state option" where
  "mdd_add_candidate g v s =
     (if \<not> in_array v then None
      else do {
        ud \<leftarrow> dpq_add_candidate v (UndominatedDPQ s);
        vx \<leftarrow> vertex_at g v;
        cn \<leftarrow> fold_option (\<lambda>u. upd_candidate_set u (vs_add v)) (neighbours vx) (CandidateNeighbours s);
        Some (s\<lparr>fixed := (fixed s)(v := 0), total_fixed := total_fixed s - 1,
                UndominatedDPQ := ud, CandidateNeighbours := cn\<rparr>)
      })"

fun mdd_remove_from_sets ::
  "(int \<Rightarrow> int) \<Rightarrow> int \<Rightarrow> int list \<Rightarrow> bool \<times> VertexSet list \<Rightarrow> (bool \<times> VertexSet list) option" where
  "mdd_remove_from_sets cov v [] fc = Some fc"
| "mdd_remove_from_sets cov v (u # us) (forced, cn) =
     do {
       cn' \<leftarrow> upd_candidate_set u (vs_remove v) cn;
       cs \<leftarrow> candidate_neighbour_set cn' u;
       if \<not> in_array u then None
       else mdd_remove_from_sets cov v us (if vs_size cs = 0 \<and> cov u = 0 then True else forced, cn')
     }"

definition mdd_remove_candidate :: "Graph \<Rightarrow> int \<Rightarrow> mdd_state \<Rightarrow> (bool \<times> mdd_state) option" where
  "mdd_remove_candidate g v s =
     (if \<not> in_array v then None
      else do {
        ud \<leftarrow> dpq_remove_candidate v (UndominatedDPQ s);
        vx \<leftarrow> vertex_at g v;
        (forced, cn) \<leftarrow> mdd_remove_from_sets (covered s) v (neighbours vx) (False, CandidateNeighbours s);
        Some (forced, s\<lparr>fixed := (fixed s)(v := 1), total_fixed := total_fixed s + 1,
                        UndominatedDPQ := ud, CandidateNeighbours := cn\<rparr>)
      })"

definition mdd_dominate :: "Graph \<Rightarrow> int \<Rightarrow> mdd_state \<Rightarrow> mdd_state option" where
  "mdd_dominate g v s =
     (if \<not> in_array v then None
      else let s1 = s\<lparr>covered := (covered s)(v := covered s v + 1)\<rparr>
           in if covered s1 v > 1 then Some s1
              else do {
                ud \<leftarrow> dpq_dominate False v (UndominatedDPQ s1);
                us \<leftarrow> vs_remove v (UndominatedSet s1);
                vx \<leftarrow> vertex_at g v;
                ud' \<leftarrow> fold_option (\<lambda>u q. map_option snd (decrement False u q)) (neighbours vx) ud;
                Some (s1\<lparr>total_covered := total_covered s1 + 1,
                         UndominatedDPQ := ud', UndominatedSet := us\<rparr>)
              })"

definition mdd_undominate :: "Graph \<Rightarrow> int \<Rightarrow> mdd_state \<Rightarrow> mdd_state option" where
  "mdd_undominate g v s =
     (if \<not> in_array v then None
      else let s1 = s\<lparr>covered := (covered s)(v := covered s v - 1)\<rparr>
           in if covered s1 v > 0 then Some s1
              else do {
                ud \<leftarrow> dpq_undominate False v (UndominatedDPQ s1);
                us \<leftarrow> vs_add v (UndominatedSet s1);
                vx \<leftarrow> vertex_at g v;
                ud' \<leftarrow> fold_option (\<lambda>u q. map_option snd (increment False u q)) (neighbours vx) ud;
                Some (s1\<lparr>total_covered := total_covered s1 - 1,
                         UndominatedDPQ := ud', UndominatedSet := us\<rparr>)
              })"

text \<open>The MDD solver ranks the members of \<^verbatim>\<open>CandidateNeighbours[v]\<close>.\<close>

definition rank_neighbours_mdd ::
  "rank_rule \<Rightarrow> Graph \<Rightarrow> int \<Rightarrow> mdd_state \<Rightarrow> (int list \<times> int) option" where
  "rank_neighbours_mdd rule g v s =
     do {
       vx \<leftarrow> vertex_at g v;
       cs \<leftarrow> candidate_neighbour_set (CandidateNeighbours s) v;
       rank_candidates rule (Graph_n g) (UndominatedDPQ s) (vdeg vx) (vs_list cs)
     }"

text \<open>
  \<^verbatim>\<open>evaluate_bounds\<close>: 1 when the search may go on, 0 for a fatal violation, \<open>-1\<close> for one
  that the current sibling may have caused.
\<close>

definition evaluate_bounds :: "bool \<Rightarrow> Settings \<Rightarrow> Graph \<Rightarrow> mdd_state \<Rightarrow> int option" where
  "evaluate_bounds GENERATE_ALL st g s =
     (let n = Graph_n g in
      do {
        min_vertices_needed \<leftarrow> min_vertices_needed (mdd_stack s);
        if min_vertices_needed \<ge> MAX_VERTS then Some 0
        else
          let min_total_size = vs_size (D s) + min_vertices_needed
          in if n - total_fixed s + 1 < min_vertices_needed then Some 0
             else if n - total_fixed s + 1 = min_vertices_needed then Some (- 1)
             else if GENERATE_ALL
                  then (if u32 min_total_size > total_upper_bound st then Some (- 1) else Some 1)
                  else (if min_total_size \<ge> vs_size (B s) then Some (- 1) else Some 1)
      })"

fun min_cd_scan :: "VertexSet list \<Rightarrow> int list \<Rightarrow> int \<times> int \<Rightarrow> int option" where
  "min_cd_scan cn [] (min_cd_vertex, min_cd) = Some min_cd_vertex"
| "min_cd_scan cn (v # vs) (min_cd_vertex, min_cd) =
     do { cs \<leftarrow> candidate_neighbour_set cn v;
          min_cd_scan cn vs (if vs_size cs < min_cd then (v, vs_size cs) else (min_cd_vertex, min_cd)) }"

fun max_cd_scan :: "VertexSet list \<Rightarrow> int list \<Rightarrow> int \<times> int \<Rightarrow> int option" where
  "max_cd_scan cn [] (max_cd_vertex, max_cd) = Some max_cd_vertex"
| "max_cd_scan cn (v # vs) (max_cd_vertex, max_cd) =
     do { cs \<leftarrow> candidate_neighbour_set cn v;
          max_cd_scan cn vs (if vs_size cs > max_cd then (v, vs_size cs) else (max_cd_vertex, max_cd)) }"

definition choose_next_vertex :: "Variant \<Rightarrow> Graph \<Rightarrow> mdd_state \<Rightarrow> int option" where
  "choose_next_vertex var g s =
     (case choose_vertex_rule var of
        CHOOSE_VERTEX_MIN_MDD \<Rightarrow> get_min_mdd_vertex (env_of g s) (mdd_stack s)
      | CHOOSE_VERTEX_MAX_MDD \<Rightarrow> get_max_mdd_vertex (env_of g s) (mdd_stack s)
      | CHOOSE_VERTEX_MIN_CD \<Rightarrow>
          min_cd_scan (CandidateNeighbours s) (vs_list (UndominatedSet s)) (INVALID_VERTEX, MAX_VERTS)
      | CHOOSE_VERTEX_MAX_CD \<Rightarrow>
          max_cd_scan (CandidateNeighbours s) (vs_list (UndominatedSet s)) (INVALID_VERTEX, 0))"

text \<open>
  \<^verbatim>\<open>add_vertex_to_set\<close> of the MDD solver. The recursive call returns the code of
  \<^verbatim>\<open>FindDominatingSet\<close>; code 0 marks the branch as forced.
\<close>

definition add_vertex_to_set_mdd ::
  "(mdd_state \<Rightarrow> (int \<times> mdd_state) outcome) \<Rightarrow> Graph \<Rightarrow> int \<Rightarrow> int list \<Rightarrow> mdd_state
   \<Rightarrow> (bool \<times> int list \<times> mdd_state) outcome" where
  "add_vertex_to_set_mdd search g j fixed_list s =
     (case lift_option s
             (do {
                (forced, s1) \<leftarrow> mdd_remove_candidate g j s;
                d1 \<leftarrow> vs_add j (D s1);
                vx \<leftarrow> vertex_at g j;
                s2 \<leftarrow> fold_option (mdd_dominate g) (neighbours vx) (s1\<lparr>D := d1\<rparr>);
                ms \<leftarrow> add_dominator (env_of g s2) j (mdd_stack s2);
                Some (forced, vx, s2\<lparr>mdd_stack := ms\<rparr>)
              }) of
        Inl e \<Rightarrow> Inl e
      | Inr (forced, vx, s2) \<Rightarrow>
          (case search s2 of
             Inl e \<Rightarrow> Inl e
           | Inr (code, s3) \<Rightarrow>
               lift_option s3
                 (do {
                    ms \<leftarrow> remove_dominator j (mdd_stack s3);
                    s4 \<leftarrow> fold_option (mdd_undominate g) (rev (neighbours vx)) (s3\<lparr>mdd_stack := ms\<rparr>);
                    d2 \<leftarrow> remove_pop j (D s4);
                    ms' \<leftarrow> exclude_dominator (env_of g (s4\<lparr>D := d2\<rparr>)) j (mdd_stack s4);
                    Some (if code = 0 then True else forced, fixed_list @ [j],
                          s4\<lparr>D := d2, mdd_stack := ms'\<rparr>)
                  })))"

fun mdd_branch_loop ::
  "(mdd_state \<Rightarrow> (int \<times> mdd_state) outcome) \<Rightarrow> Variant \<Rightarrow> Settings \<Rightarrow> Graph \<Rightarrow> int list \<Rightarrow> int list
   \<Rightarrow> mdd_state \<Rightarrow> (int list \<times> mdd_state) outcome" where
  "mdd_branch_loop search var st g [] fixed_list s = Inr (fixed_list, s)"
| "mdd_branch_loop search var st g (j # js) fixed_list s =
     (case add_vertex_to_set_mdd search g j fixed_list s of
        Inl e \<Rightarrow> Inl e
      | Inr (force_stop, fixed_list', s') \<Rightarrow>
          if force_stop_on_trapped_vertex var \<and> force_stop then Inr (fixed_list', s')
          else (case (if recheck_bounds_in_loop var
                      then lift_option s' (evaluate_bounds (generate_all var) st g s')
                      else Inr 1) of
                  Inl e \<Rightarrow> Inl e
                | Inr code \<Rightarrow>
                    if code \<noteq> 1 then Inr (fixed_list', s')
                    else mdd_branch_loop search var st g js fixed_list' s'))"

definition mdd_restore_one :: "Graph \<Rightarrow> int \<Rightarrow> mdd_state \<Rightarrow> mdd_state option" where
  "mdd_restore_one g v s =
     do {
       ms \<leftarrow> unexclude_dominator v (mdd_stack s);
       mdd_add_candidate g v (s\<lparr>mdd_stack := ms\<rparr>)
     }"

definition mdd_restore :: "Graph \<Rightarrow> int list \<Rightarrow> mdd_state \<Rightarrow> mdd_state option" where
  "mdd_restore g fixed_list s =
     restore_downwards (mdd_restore_one g) fixed_list (int (length fixed_list) - 1) s"

definition mdd_body ::
  "(mdd_state \<Rightarrow> (int \<times> mdd_state) outcome) \<Rightarrow> Variant \<Rightarrow> Settings \<Rightarrow> Graph \<Rightarrow> mdd_state
   \<Rightarrow> (int \<times> mdd_state) outcome" where
  "mdd_body search var st g s =
     (let n = Graph_n g in
      if total_covered s = n then Inr (1, record_solution (generate_all var) st s)
      else case evaluate_bounds (generate_all var) st g s of
             None \<Rightarrow> abort Undefined s
           | Some bound_result \<Rightarrow>
        if bound_result \<noteq> 1 then Inr (bound_result, s)
        else case choose_next_vertex var g s of
               None \<Rightarrow> abort Undefined s
             | Some i \<Rightarrow>
          (case rank_neighbours_mdd (rank_neighbours_rule var) g i s of
             None \<Rightarrow> abort Undefined s
           | Some (neighbour_array, num_neighbours) \<Rightarrow>
               if int (length neighbour_array) \<noteq> num_neighbours then abort Undefined s
               else (case mdd_branch_loop search var st g neighbour_array [] s of
                       Inl e \<Rightarrow> Inl e
                     | Inr (fixed_list, s') \<Rightarrow>
                         (case mdd_restore g fixed_list s' of
                            None \<Rightarrow> abort Undefined s'
                          | Some s'' \<Rightarrow> Inr (1, s'')))))"

fun FindDominatingSet_mdd ::
  "nat \<Rightarrow> Variant \<Rightarrow> Settings \<Rightarrow> Graph \<Rightarrow> bool \<Rightarrow> mdd_state \<Rightarrow> (int \<times> mdd_state) outcome" where
  "FindDominatingSet_mdd 0 var st g chk s = abort OutOfFuel s"
| "FindDominatingSet_mdd (Suc k) var st g chk s =
     (case report_node chk st (vs_size (D s)) (depth_log s) of
        None \<Rightarrow> abort Undefined s
      | Some (resmod_check, dl) \<Rightarrow>
          if resmod_check = 0 then Inr (1, s\<lparr>depth_log := dl\<rparr>)
          else if chk \<and> resmod_check = 1
          then (case unreport_node (vs_size (D s)) dl of
                  None \<Rightarrow> abort Undefined s
                | Some dl1 \<Rightarrow>
                    (case report_node False st (vs_size (D s)) dl1 of
                       None \<Rightarrow> abort Undefined s
                     | Some (resmod_check2, dl2) \<Rightarrow>
                         if resmod_check2 = 0 then Inr (1, s\<lparr>depth_log := dl2\<rparr>)
                         else mdd_body (FindDominatingSet_mdd k var st g False)
                                var st g (s\<lparr>depth_log := dl2\<rparr>)))
          else mdd_body (FindDominatingSet_mdd k var st g chk) var st g (s\<lparr>depth_log := dl\<rparr>))"

text \<open>
  \<^verbatim>\<open>BBTMDDSolverVariant::solve\<close>. \<open>d0\<close>, \<open>b0\<close> and \<open>u0\<close> are the sets of the solver object,
  \<open>max_mdd0\<close> the initial content of \<^verbatim>\<open>max_mdd\<close> in the freshly allocated stack.
\<close>

definition mdd_force_in :: "Graph \<Rightarrow> int \<Rightarrow> mdd_state \<Rightarrow> mdd_state option" where
  "mdd_force_in g v s =
     do {
       (forced, s1) \<leftarrow> mdd_remove_candidate g v s;
       d1 \<leftarrow> vs_add v (D s1);
       vx \<leftarrow> vertex_at g v;
       s2 \<leftarrow> fold_option (mdd_dominate g) (neighbours vx) (s1\<lparr>D := d1\<rparr>);
       ms \<leftarrow> add_dominator (env_of g s2) v (mdd_stack s2);
       Some (s2\<lparr>mdd_stack := ms\<rparr>)
     }"

definition mdd_force_out :: "Graph \<Rightarrow> int \<Rightarrow> mdd_state \<Rightarrow> mdd_state option" where
  "mdd_force_out g v s =
     do {
       (forced, s1) \<leftarrow> mdd_remove_candidate g v s;
       ms \<leftarrow> exclude_dominator (env_of g s1) v (mdd_stack s1);
       Some (s1\<lparr>mdd_stack := ms\<rparr>)
     }"

definition mdd_init ::
  "Variant \<Rightarrow> Settings \<Rightarrow> DominationInstance \<Rightarrow> VertexSet \<Rightarrow> VertexSet \<Rightarrow> VertexSet \<Rightarrow> int
   \<Rightarrow> (Graph \<times> mdd_state) option" where
  "mdd_init var st inst d0 b0 u0 max_mdd0 =
     (let g = sort_neighbours_descending (add_loops (G inst));
          n = Graph_n g
      in do {
        b \<leftarrow> init_B (generate_all var) st n (n - 1) b0;
        us \<leftarrow> reset_full n u0;
        cn \<leftarrow> fold_option (\<lambda>vx cn. do { cs \<leftarrow> fold_option vs_add (neighbours vx) new_VertexSet;
                                         Some (cn @ [cs]) }) g [];
        ud \<leftarrow> new_DegreePQ False g;
        ms \<leftarrow> new_MDDStack max_mdd0
               \<lparr>env_G = g, env_CandidateNeighbours = cn, env_UndominatedSet = us, env_UndominatedDPQ = ud\<rparr>;
        let s1 = \<lparr>D = reset_empty d0, B = b, covered = (\<lambda>_. 0), fixed = (\<lambda>_. 0),
                  total_covered = 0, total_fixed = 0, depth_log = (\<lambda>_. 0), out = [],
                  UndominatedDPQ = ud, CandidateNeighbours = cn, UndominatedSet = us, mdd_stack = ms\<rparr>;
        s2 \<leftarrow> fold_option (mdd_force_in g) (vs_list (force_in inst)) s1;
        s3 \<leftarrow> fold_option (mdd_force_out g) (vs_list (force_out inst)) s2;
        Some (g, s3)
      })"

definition solve_mdd ::
  "nat \<Rightarrow> Variant \<Rightarrow> Settings \<Rightarrow> DominationInstance \<Rightarrow> VertexSet \<Rightarrow> VertexSet \<Rightarrow> VertexSet \<Rightarrow> int
   \<Rightarrow> (int \<times> mdd_state) outcome" where
  "solve_mdd fuel var st inst d0 b0 u0 max_mdd0 =
     (case mdd_init var st inst d0 b0 u0 max_mdd0 of
        None \<Rightarrow> Inl (Undefined, [])
      | Some (g, s0) \<Rightarrow> FindDominatingSet_mdd fuel var st g True s0)"

definition MDD_minCD_desc :: Variant where
  "MDD_minCD_desc = \<lparr>choose_vertex_rule = CHOOSE_VERTEX_MIN_CD, rank_neighbours_rule = RANK_NEIGHBOURS_DESCENDING,
     force_stop_on_trapped_vertex = False, recheck_bounds_in_loop = True, generate_all = False\<rparr>"

definition MDD_minCD_asc :: Variant where
  "MDD_minCD_asc = MDD_minCD_desc\<lparr>rank_neighbours_rule := RANK_NEIGHBOURS_ASCENDING\<rparr>"

definition MDD_minMDD_desc :: Variant where
  "MDD_minMDD_desc = MDD_minCD_desc\<lparr>choose_vertex_rule := CHOOSE_VERTEX_MIN_MDD\<rparr>"

definition MDD_maxMDD_desc :: Variant where
  "MDD_maxMDD_desc = MDD_minCD_desc\<lparr>choose_vertex_rule := CHOOSE_VERTEX_MAX_MDD\<rparr>"

section \<open>Reading and writing graphs (graph\_util.cpp)\<close>

text \<open>
  A stream is the string of characters still to be read, or written so far.
  \<^verbatim>\<open>f << k\<close> writes an \<^verbatim>\<open>int\<close> in decimal.
\<close>

definition digit_char :: "nat \<Rightarrow> char" where
  "digit_char d = char_of (48 + d)"

function show_nat :: "nat \<Rightarrow> string" where
  "show_nat k = (if k < 10 then [digit_char k] else show_nat (k div 10) @ [digit_char (k mod 10)])"
  by pat_completeness auto
termination
  by (relation "measure id") auto

declare show_nat.simps [simp del]

definition show_int :: "int \<Rightarrow> string" where
  "show_int k = (if k < 0 then CHR ''-'' # show_nat (nat (- k)) else show_nat (nat k))"

text \<open>
  \<^verbatim>\<open>f >> k\<close> skips white space, then reads an optional sign and decimal digits. The
  extraction fails (\<open>None\<close>) when there is no digit or when the number does not fit an
  \<^verbatim>\<open>int\<close>.
\<close>

definition is_space :: "char \<Rightarrow> bool" where
  "is_space c = (c = CHR '' '' \<or> (9 \<le> (of_char c :: nat) \<and> (of_char c :: nat) \<le> 13))"

definition is_digit :: "char \<Rightarrow> bool" where
  "is_digit c = (48 \<le> (of_char c :: nat) \<and> (of_char c :: nat) \<le> 57)"

definition digits_value :: "string \<Rightarrow> nat" where
  "digits_value ds = foldl (\<lambda>a c. 10 * a + (of_char c - 48)) 0 ds"

definition read_int :: "string \<Rightarrow> (int \<times> string) option" where
  "read_int f =
     (let f1 = dropWhile is_space f;
          (negative, f2) = (case f1 of
                              c # r \<Rightarrow> if c = CHR ''-'' then (True, r)
                                       else if c = CHR ''+'' then (False, r)
                                       else (False, f1)
                            | [] \<Rightarrow> (False, f1));
          ds = takeWhile is_digit f2;
          k = (if negative then - int (digits_value ds) else int (digits_value ds))
      in if ds = [] then None
         else if k < - (2 ^ 31) \<or> k > 2 ^ 31 - 1 then None
         else Some (k, dropWhile is_digit f2))"

text \<open>
  \<^verbatim>\<open>read_graph\<close>: the result is the returned flag, the graph and the rest of the stream.
  \<open>read_neighbours\<close> is the inner loop for vertex \<open>i\<close> with \<open>k\<close> neighbours still to read,
  \<open>read_vertices\<close> the outer loop over the vertices \<open>is\<close>.
\<close>

fun read_neighbours :: "nat \<Rightarrow> int \<Rightarrow> string \<Rightarrow> Graph \<Rightarrow> bool \<times> Graph \<times> string" where
  "read_neighbours 0 i f g = (True, g, f)"
| "read_neighbours (Suc k) i f g =
     (case read_int f of
        None \<Rightarrow> (False, g, f)
      | Some (u, f') \<Rightarrow>
          if u < 0 \<or> u \<ge> MAX_DEGREE then (False, g, f')
          else read_neighbours k i f'
                 (g[nat i := (g ! nat i)\<lparr>neighbours := neighbours (g ! nat i) @ [u]\<rparr>]))"

fun read_vertices :: "int list \<Rightarrow> string \<Rightarrow> Graph \<Rightarrow> bool \<times> Graph \<times> string" where
  "read_vertices [] f g = (True, g, f)"
| "read_vertices (i # is) f g =
     (case read_int f of
        None \<Rightarrow> (False, g, f)
      | Some (deg_i, f') \<Rightarrow>
          if deg_i < 0 \<or> deg_i \<ge> MAX_DEGREE then (False, g, f')
          else (case read_neighbours (nat deg_i) i f' g of
                  (False, g', f'') \<Rightarrow> (False, g', f'')
                | (True, g', f'') \<Rightarrow> read_vertices is f'' g'))"

definition read_graph :: "string \<Rightarrow> Graph \<Rightarrow> error + bool \<times> Graph \<times> string" where
  "read_graph f g =
     (case read_int f of
        None \<Rightarrow> Inr (False, g, f)
      | Some (n, f') \<Rightarrow>
          if n < 0 \<or> n \<ge> MAX_VERTS then Inr (False, g, f')
          else (case Graph_reset n of
                  Inl e \<Rightarrow> Inl e
                | Inr g0 \<Rightarrow> Inr (read_vertices [0..n - 1] f' g0)))"

text \<open>\<^verbatim>\<open>write_graph\<close>; \<^verbatim>\<open>std::endl\<close> writes a newline.\<close>

definition write_vertex :: "Vertex \<Rightarrow> string" where
  "write_vertex vx =
     show_int (vdeg vx) @ '' '' @ concat (map (\<lambda>u. show_int u @ '' '') (neighbours vx)) @ [CHR 0x0A]"

definition write_graph :: "Graph \<Rightarrow> string" where
  "write_graph g = show_int (Graph_n g) @ [CHR 0x0A] @ concat (map write_vertex g)"

section \<open>Output proxies and example instances\<close>

text \<open>What a run has handed to \<^verbatim>\<open>process_set\<close>, whether it returned or stopped with an error.\<close>

definition emitted :: "'a bbt_state_scheme outcome \<Rightarrow> VertexSet list" where
  "emitted r = (case r of Inl (e, t) \<Rightarrow> t | Inr s \<Rightarrow> out s)"

definition outcome_error :: "'a outcome \<Rightarrow> error option" where
  "outcome_error r = (case r of Inl (e, t) \<Rightarrow> Some e | Inr s \<Rightarrow> None)"

text \<open>
  \<^verbatim>\<open>OutputProxyOutputBest\<close> (basic\_io.cpp): \<^verbatim>\<open>initialize\<close> fills \<^verbatim>\<open>best_set\<close> with all
  \<open>n\<close> vertices, \<^verbatim>\<open>process_set\<close> overwrites it, \<^verbatim>\<open>finalize\<close> prints it.
\<close>

definition output_best_initialize :: "int \<Rightarrow> VertexSet \<Rightarrow> VertexSet option" where
  "output_best_initialize n best_set = reset_full n best_set"

definition output_best_process_set :: "VertexSet \<Rightarrow> VertexSet \<Rightarrow> VertexSet" where
  "output_best_process_set dominating_set best_set = dominating_set"

definition output_best_run :: "int \<Rightarrow> VertexSet list \<Rightarrow> VertexSet \<Rightarrow> VertexSet option" where
  "output_best_run n sets best_set =
     map_option (fold output_best_process_set sets) (output_best_initialize n best_set)"

definition make_instance :: "int list list \<Rightarrow> DominationInstance" where
  "make_instance adj =
     \<lparr>G = map (\<lambda>(i, ns). \<lparr>neighbours = ns, real_index = i, index = i\<rparr>)
              (zip [0..int (length adj) - 1] adj),
      force_in = new_VertexSet, force_out = new_VertexSet\<rparr>"

text \<open>The path \<open>0 - 1 - 2\<close> and the cycle on five vertices.\<close>

definition P3 :: DominationInstance where
  "P3 = make_instance [[1], [0, 2], [1]]"

definition C5_cycle :: DominationInstance where
  "C5_cycle = make_instance [[1, 4], [0, 2], [1, 3], [2, 4], [3, 0]]"

text \<open>
  The pruning rule in the words of the specification: with \<open>min_total = |D| + min_needed\<close>,
  prune if \<open>min_total > upper_bound\<close> (generation) or \<open>min_total \<ge> |B|\<close> (optimisation), or
  if \<open>n - total_fixed < min_needed\<close>.
\<close>

definition spec_prune ::
  "bool \<Rightarrow> int \<Rightarrow> int \<Rightarrow> int \<Rightarrow> int \<Rightarrow> int \<Rightarrow> int \<Rightarrow> bool" where
  "spec_prune generation upper_bound size_B n fixed_total size_D min_needed =
     (let min_total = size_D + min_needed
      in if generation then min_total > upper_bound \<or> n - fixed_total < min_needed
         else min_total \<ge> size_B \<or> n - fixed_total < min_needed)"

text \<open>The states in which the DD and the MDD search start on the five-cycle.\<close>

definition C5_dd_start :: dd_state where
  "C5_dd_start = snd (the (dd_init DD_minCD_asc default_settings C5_cycle new_VertexSet new_VertexSet))"

definition C5_mdd_start :: mdd_state where
  "C5_mdd_start =
     snd (the (mdd_init MDD_minCD_desc default_settings C5_cycle new_VertexSet new_VertexSet new_VertexSet 0))"

definition C5_graph :: Graph where
  "C5_graph = sort_neighbours_descending (add_loops (G C5_cycle))"

text \<open>
  The rank nodes that \<^verbatim>\<open>count_minimum_to_dominate\<close> visits: \<open>rank_chain q p nds\<close> holds when
  following \<^verbatim>\<open>prev\<close> from \<open>p\<close> passes through the nodes \<open>nds\<close> of the array and then
  reaches the sentinel.
\<close>

fun rank_chain :: "DegreePQ \<Rightarrow> node_ptr \<Rightarrow> PQNode list \<Rightarrow> bool" where
  "rank_chain q p [] = (p = NodeHT)"
| "rank_chain q p (nd # nds) =
     (case p of
        NodeAt i \<Rightarrow> in_array i \<and> nodes q i = nd \<and> rank_chain q (n_prev nd) nds
      | _ \<Rightarrow> False)"

text \<open>
  The greedy estimate in the words of the specification, on the pairs (rank \<open>d\<close>, number
  \<open>u\<close> of unfixed members) from the highest rank down: at each rank either consume
  \<open>\<lceil>m/d\<rceil>\<close> vertices and stop, or consume all \<open>u\<close> and subtract \<open>d\<cdot>u\<close> from \<open>m\<close>; the
  result is \<open>MAX_VERTS + 1\<close> when rank 0 or the end of the list is reached.
\<close>

fun greedy_estimate :: "(int \<times> int) list \<Rightarrow> int \<Rightarrow> int \<Rightarrow> int" where
  "greedy_estimate [] m consumed = MAX_VERTS + 1"
| "greedy_estimate ((d, u) # rest) m consumed =
     (if d = 0 then MAX_VERTS + 1
      else if \<lceil>real_of_int m / real_of_int d\<rceil> \<le> u then consumed + \<lceil>real_of_int m / real_of_int d\<rceil>
      else greedy_estimate rest (m - d * u) (consumed + u))"

text \<open>The path \<open>0 - 1 - 2 - 3\<close> and its uncovered-degree queue once vertex 1 is fixed.\<close>

definition P4_graph :: Graph where
  "P4_graph = sort_neighbours_descending (add_loops (G (make_instance [[1], [0, 2], [1, 3], [2]])))"

definition P4_queue :: DegreePQ where
  "P4_queue = the (new_DegreePQ False P4_graph \<bind> dpq_remove_candidate 1)"

text \<open>
  The shape of a correct stretch of output in optimisation mode: the output grows from \<open>t\<close>
  to \<open>t'\<close> by sets of strictly decreasing size, all smaller than the bound \<open>b\<close> in force
  at the start and none smaller than the bound \<open>b'\<close> in force at the end.
\<close>

definition decreasing_sizes :: "VertexSet list \<Rightarrow> bool" where
  "decreasing_sizes sets = sorted_wrt (\<lambda>x y. vs_size x > vs_size y) sets"

definition extends_below :: "int \<Rightarrow> VertexSet list \<Rightarrow> int \<Rightarrow> VertexSet list \<Rightarrow> bool" where
  "extends_below b t b' t' =
     (\<exists>ys. t' = t @ ys \<and> decreasing_sizes ys
        \<and> (\<forall>y \<in> set ys. vs_size y < b \<and> b' \<le> vs_size y) \<and> b' \<le> b)"

definition good_outcome :: "int \<Rightarrow> VertexSet list \<Rightarrow> 'a bbt_state_scheme outcome \<Rightarrow> bool" where
  "good_outcome b t r =
     (case r of
        Inl (e, t') \<Rightarrow> (\<exists>b'. extends_below b t b' t')
      | Inr s' \<Rightarrow> extends_below b t (vs_size (B s')) (out s'))"

text \<open>
  What \<^verbatim>\<open>output_best\<close> relies on: if any set was emitted, the set it retains is the last
  one, and no emitted set is smaller.
\<close>

definition best_is_last_and_least :: "int \<Rightarrow> VertexSet \<Rightarrow> VertexSet list \<Rightarrow> bool" where
  "best_is_last_and_least n best_set sets =
     (sets \<noteq> [] \<longrightarrow>
        (\<forall>best. output_best_run n sets best_set = Some best \<longrightarrow>
           best = last sets \<and> (\<forall>y \<in> set sets. vs_size best \<le> vs_size y)))"

text \<open>Two disjoint edges, \<open>0 - 1\<close> and \<open>2 - 3\<close>.\<close>

definition two_edges :: DominationInstance where
  "two_edges = make_instance [[1], [0], [3], [2]]"

text \<open>The constraints of the text format, in the words of the specification.\<close>

definition text_format_ok :: "Graph \<Rightarrow> bool" where
  "text_format_ok g =
     (Graph_n g < MAX_VERTS
      \<and> (\<forall>vx \<in> set g. vdeg vx < MAX_DEGREE
                      \<and> (\<forall>u \<in> set (neighbours vx). 0 \<le> u \<and> u < MAX_DEGREE)))"

subsection \<open>The journal of the MDD stack\<close>

text \<open>
  The entries of the row \<open>r\<close> that are in use, the most recent first, and what popping them
  one by one does to \<^verbatim>\<open>highest_new_mdd\<close>, \<^verbatim>\<open>mdd_values\<close> and \<^verbatim>\<open>mdd_counts\<close> (the loop of
  \<^verbatim>\<open>remove_dominator\<close> and \<^verbatim>\<open>unexclude_dominator\<close> read off the list).
\<close>

definition row_entries :: "MDDStack \<Rightarrow> int \<Rightarrow> StackEntry list" where
  "row_entries m r = map (\<lambda>i. entries (stack m r) (int i)) (rev [0..<nat (row_size (stack m r))])"

fun undo_entries ::
  "bool \<Rightarrow> StackEntry list \<Rightarrow> int \<times> (int \<Rightarrow> int) \<times> (int \<Rightarrow> int)
   \<Rightarrow> (int \<times> (int \<Rightarrow> int) \<times> (int \<Rightarrow> int)) option" where
  "undo_entries guarded [] s = Some s"
| "undo_entries guarded (e # es) (h, vals, cnts) =
     (let u = vertex e; new = old_mdd e; old = vals u in
      if \<not> in_array u then None
      else if \<not> (guarded \<and> old = INVALID_MDD) \<and> \<not> in_array old then None
      else if \<not> in_array new then None
      else let c1 = (if guarded \<and> old = INVALID_MDD then cnts else cnts(old := cnts old - 1))
           in undo_entries guarded es (max h new, vals(u := new), c1(new := c1 new + 1)))"

text \<open>
  What holds of the stack \<open>m\<close> while \<^verbatim>\<open>add_dominator\<close> or \<^verbatim>\<open>exclude_dominator\<close> fills the
  row \<open>r\<close>, starting from \<open>m0\<close>: popping the row leads back to the values and counters of
  \<open>m0\<close>, every saved value is at most \<open>b\<close>, a counter that went down has a saved value to
  account for it, and every value is the one of \<open>m0\<close>, \<open>INVALID_MDD\<close> or (in the second
  loop) the recomputed one.
\<close>

definition journal_inv :: "bool \<Rightarrow> mdd_env \<Rightarrow> bool \<Rightarrow> int \<Rightarrow> int \<Rightarrow> MDDStack \<Rightarrow> MDDStack \<Rightarrow> bool" where
  "journal_inv g env second r b m0 m =
     (0 \<le> row_size (stack m r) \<and> row_size (stack m r) \<le> 1024
      \<and> max_mdd m = max_mdd m0 \<and> stack_size m = stack_size m0
      \<and> (\<forall>i. i \<noteq> r \<longrightarrow> stack m i = stack m0 i)
      \<and> (\<forall>h. undo_entries g (row_entries m r) (h, mdd_values m, mdd_counts m)
                = Some (fold max (map old_mdd (row_entries m r)) h, mdd_values m0, mdd_counts m0))
      \<and> (\<forall>e \<in> set (row_entries m r). old_mdd e \<le> b)
      \<and> (\<forall>d. mdd_counts m d < mdd_counts m0 d \<longrightarrow> (\<exists>e \<in> set (row_entries m r). old_mdd e = d))
      \<and> (\<forall>u. mdd_values m u = mdd_values m0 u \<or> mdd_values m u = INVALID_MDD
               \<or> (second \<and> recompute_mdd env u = Some (mdd_values m u))))"

text \<open>
  \<open>journal_undone m m'\<close>: \<open>m'\<close> has the values, the counters, the height and the rows in use
  of \<open>m\<close>; \<open>restored m m'\<close>: and its \<^verbatim>\<open>max_mdd\<close> too.
\<close>

definition journal_undone :: "MDDStack \<Rightarrow> MDDStack \<Rightarrow> bool" where
  "journal_undone m m' =
     (mdd_values m' = mdd_values m \<and> mdd_counts m' = mdd_counts m \<and> stack_size m' = stack_size m
      \<and> (\<forall>i. i < stack_size m \<longrightarrow> stack m' i = stack m i))"

definition restored :: "MDDStack \<Rightarrow> MDDStack \<Rightarrow> bool" where
  "restored m m' = (journal_undone m m' \<and> max_mdd m' = max_mdd m)"

text \<open>
  The vertices whose values \<^verbatim>\<open>add_dominator(v)\<close> and \<^verbatim>\<open>exclude_dominator(v)\<close> read, and
  what the class keeps true of \<^verbatim>\<open>max_mdd\<close>: it is 0 or the value of some vertex, and no
  valid value is larger.
\<close>

definition mdd_scope :: "mdd_env \<Rightarrow> int \<Rightarrow> int list" where
  "mdd_scope env v =
     (case vertex_at (env_G env) v of None \<Rightarrow> [] | Some vx \<Rightarrow> neighbours vx)
     @ vs_list (env_UndominatedSet env)"

definition max_mdd_exact :: "mdd_env \<Rightarrow> int \<Rightarrow> MDDStack \<Rightarrow> bool" where
  "max_mdd_exact env v m =
     ((max_mdd m = 0 \<or> 0 < mdd_counts m (max_mdd m))
      \<and> (\<forall>u \<in> set (mdd_scope env v). in_array (mdd_values m u) \<longrightarrow> mdd_values m u \<le> max_mdd m))"

text \<open>
  The MDD search on the path \<open>0 - 1 - 2 - 3\<close>: at the start, once vertex 1 is no longer a
  candidate, and once it is in \<open>D\<close> with its neighbours covered.
\<close>

definition P4_path :: DominationInstance where
  "P4_path = make_instance [[1], [0, 2], [1, 3], [2]]"

definition P4_mdd_start :: mdd_state where
  "P4_mdd_start =
     snd (the (mdd_init MDD_minCD_desc default_settings P4_path new_VertexSet new_VertexSet new_VertexSet 0))"

definition P4_fixed :: mdd_state where
  "P4_fixed = snd (the (mdd_remove_candidate P4_graph 1 P4_mdd_start))"

definition P4_covered :: mdd_state where
  "P4_covered =
     the (do { d1 \<leftarrow> vs_add 1 (D P4_fixed);
               fold_option (mdd_dominate P4_graph) [2, 1, 0] (P4_fixed\<lparr>D := d1\<rparr>) })"

text \<open>
  The pruning test of the fixed-order \<^verbatim>\<open>FindDominatingSet\<close>, as \<open>fo_body\<close> evaluates it, and
  the state in which the fixed-order search starts on the path \<open>0 - 1 - 2\<close>.
\<close>

definition fo_bound_violated :: "bool \<Rightarrow> Settings \<Rightarrow> Graph \<Rightarrow> fo_state \<Rightarrow> bool" where
  "fo_bound_violated GENERATE_ALL st g s =
     (let n = Graph_n g;
          min_vertices_needed = (n - total_covered s + max_deg s) sdiv (max_deg s + 1);
          min_total_size = vs_size (D s) + min_vertices_needed
      in if GENERATE_ALL
         then u32 min_total_size > total_upper_bound st \<or> n - total_fixed s < min_vertices_needed
         else min_total_size \<ge> vs_size (B s) \<or> n - total_fixed s < min_vertices_needed)"

definition P3_graph :: Graph where
  "P3_graph = sort_neighbours_descending (add_loops (G P3))"

definition P3_fo_start :: fo_state where
  "P3_fo_start = snd (the (fo_init False default_settings P3 new_fo_solver))"

text \<open>
  The rank list in the words of the specification. The rank of a vertex is the index of
  the rank node it sits on (\<^verbatim>\<open>increment\<close> and \<^verbatim>\<open>decrement\<close> move it to \<^verbatim>\<open>nodes[deg+1]\<close>
  and \<^verbatim>\<open>nodes[deg-1]\<close>); \<open>ranks_high_to_low\<close> lists the ranks that have members, from the
  highest to the lowest, each with the number of its unfixed members.
\<close>

definition unfixed_at_rank :: "DegreePQ \<Rightarrow> int \<Rightarrow> int" where
  "unfixed_at_rank q d =
     int (length (filter (\<lambda>v. degree_node (vertices q v) = NodeAt d \<and> \<not> is_fixed (vertices q v))
                         [0..dpq_n q - 1]))"

definition ranks_high_to_low :: "DegreePQ \<Rightarrow> (int \<times> int) list" where
  "ranks_high_to_low q =
     map (\<lambda>d. (d, unfixed_at_rank q d))
         (filter (\<lambda>d. list_ex (\<lambda>v. degree_node (vertices q v) = NodeAt d) [0..dpq_n q - 1])
                 (rev [0..dpq_n q]))"

text \<open>The state in which the DD search starts on the path \<open>0 - 1 - 2\<close>.\<close>

definition P3_dd_start :: dd_state where
  "P3_dd_start = snd (the (dd_init DD_minCD_asc default_settings P3 new_VertexSet new_VertexSet))"

subsection \<open>The ring of \<^verbatim>\<open>rank_neighbours\<close>\<close>










text \<open>
  What the two output loops write for the candidates \<open>cands\<close>, visited in this order, with the
  degrees \<open>d\<close>: the stable ascending sort read forwards up to the first degree 0, or read
  backwards without the entries of degree 0.
\<close>

definition ranked_output :: "rank_rule \<Rightarrow> (int \<Rightarrow> int) \<Rightarrow> int list \<Rightarrow> int list" where
  "ranked_output rule d cands =
     (case rule of
        RANK_NEIGHBOURS_ASCENDING \<Rightarrow> takeWhile (\<lambda>w. d w \<noteq> 0) (sort_key d cands)
      | RANK_NEIGHBOURS_DESCENDING \<Rightarrow> rev (filter (\<lambda>w. d w \<noteq> 0) (sort_key d cands)))"


section \<open>Properties\<close>

subsection \<open>The helper operations leave the best set and the output alone\<close>

lemma fold_option_preserves:
  assumes "\<And>x s s'. f x s = Some s' \<Longrightarrow> h s' = h s"
    and "fold_option f xs s = Some s'"
  shows "h s' = h s"
  using assms(2)
proof (induction xs arbitrary: s)
  case Nil then show ?case by simp
next
  case (Cons x xs)
  then show ?case using assms(1) by (auto split: option.splits)
qed

lemma fo_force_in_B: "fo_force_in g vs s = Some s' \<Longrightarrow> B s' = B s"
  by (induction g vs s rule: fo_force_in.induct) (auto split: Option.bind_splits)

lemma fo_force_out_B: "fo_force_out vs s = Some s' \<Longrightarrow> B s' = B s"
  by (induction vs s rule: fo_force_out.induct) (auto split: if_splits)

lemma Graph_n_conditioned [simp]: "Graph_n (sort_neighbours_descending (add_loops g)) = Graph_n g"
  by (simp add: Graph_n_def sort_neighbours_descending_def add_loops_def)

lemma init_B_size:
  assumes "init_B gen st n m b = Some b'" "0 \<le> total_upper_bound st" "0 \<le> n" "n < 2 ^ 31"
  shows "vs_size b' = (if \<not> gen \<and> total_upper_bound st < n then total_upper_bound st + 1 else m)"
proof -
  have u: "u32 n = n" using assms by (simp add: u32_def)
  show ?thesis
  proof (cases "\<not> gen \<and> total_upper_bound st < n")
    case True
    then have "u32 (total_upper_bound st + 1) = total_upper_bound st + 1"
      using assms by (simp add: u32_def)
    moreover have "s32 (total_upper_bound st + 1) = total_upper_bound st + 1"
      using assms True by (simp add: s32_def)
    ultimately show ?thesis using assms True u
      by (auto simp: init_B_def reset_full_def split: Option.bind_splits if_splits)
  next
    case False
    then show ?thesis using assms u
      by (auto simp: init_B_def reset_full_def split: Option.bind_splits if_splits)
  qed
qed

lemma init_B_bound: "init_B gen st n m b = Some b' \<Longrightarrow> 0 \<le> m \<and> m \<le> MAX_VERTS"
  by (auto simp: init_B_def reset_full_def split: Option.bind_splits if_splits)

lemma Graph_n_nonneg [simp]: "0 \<le> Graph_n g"
  by (simp add: Graph_n_def)

lemma fo_init_B0:
  assumes "fo_init gen st inst s = Some (g, s')"
  shows "\<exists>b. init_B gen st (Graph_n (G inst)) (Graph_n (G inst)) (B s) = Some b \<and> B s' = b"
  using assms
  by (auto simp: fo_init_def Let_def split: Option.bind_splits dest!: fo_force_in_B fo_force_out_B)

lemma fo_init_B:
  assumes "fo_init gen st inst s = Some (g, s')" "0 \<le> total_upper_bound st"
  shows "vs_size (B s') = (if \<not> gen \<and> total_upper_bound st < Graph_n (G inst)
                           then total_upper_bound st + 1 else Graph_n (G inst))"
proof -
  let ?n = "Graph_n (G inst)"
  from fo_init_B0[OF assms(1)] obtain b where
    b: "init_B gen st ?n ?n (B s) = Some b" and eq: "B s' = b" by blast
  have "?n < 2 ^ 31" using init_B_bound[OF b] by (simp add: MAX_VERTS_def)
  then show ?thesis using init_B_size[OF b assms(2)] eq by simp
qed

lemma dd_remove_candidate_B: "dd_remove_candidate g v s = Some (f, s') \<Longrightarrow> B s' = B s \<and> out s' = out s"
  by (auto simp: dd_remove_candidate_def split: Option.bind_splits if_splits)

lemma dd_dominate_B: "dd_dominate g v s = Some s' \<Longrightarrow> B s' = B s \<and> out s' = out s"
  by (auto simp: dd_dominate_def Let_def split: Option.bind_splits if_splits)

lemma dd_undominate_B: "dd_undominate g v s = Some s' \<Longrightarrow> B s' = B s \<and> out s' = out s"
  by (auto simp: dd_undominate_def Let_def split: Option.bind_splits if_splits)

lemma dd_add_candidate_B: "dd_add_candidate g v s = Some s' \<Longrightarrow> B s' = B s \<and> out s' = out s"
  by (auto simp: dd_add_candidate_def split: Option.bind_splits if_splits)

lemma fold_dd_dominate_B: "fold_option (dd_dominate g) xs s = Some s' \<Longrightarrow> B s' = B s \<and> out s' = out s"
  using fold_option_preserves[where f = "dd_dominate g" and h = "\<lambda>s. (B s, out s)" and xs = xs and s = s and s' = s']
  by (auto dest: dd_dominate_B)

lemma dd_force_in_B: "dd_force_in g v s = Some s' \<Longrightarrow> B s' = B s"
  by (auto simp: dd_force_in_def split: Option.bind_splits dest!: dd_remove_candidate_B fold_dd_dominate_B)


lemma fold_dd_force_in_B: "fold_option (dd_force_in g) xs s = Some t \<Longrightarrow> B t = B s"
  by (rule fold_option_preserves[where h = B and f = "dd_force_in g"]) (auto dest: dd_force_in_B)

lemma fold_dd_force_out_B:
  "fold_option (\<lambda>v t. map_option snd (dd_remove_candidate g v t)) xs s = Some t \<Longrightarrow> B t = B s"
  by (rule fold_option_preserves[where h = B and f = "\<lambda>v t. map_option snd (dd_remove_candidate g v t)"])
     (auto dest: dd_remove_candidate_B)

lemma dd_init_B0:
  assumes "dd_init var st inst d0 b0 = Some (g, s')"
  shows "\<exists>b. init_B (generate_all var) st (Graph_n (G inst)) (Graph_n (G inst) - 1) b0 = Some b \<and> B s' = b"
  using assms
  apply (clarsimp simp: dd_init_def Let_def bind_eq_Some_conv)
  apply (drule fold_dd_force_out_B)
  apply (drule fold_dd_force_in_B)
  apply simp
  done
lemma mdd_remove_candidate_B: "mdd_remove_candidate g v s = Some (f, s') \<Longrightarrow> B s' = B s \<and> out s' = out s"
  by (auto simp: mdd_remove_candidate_def split: Option.bind_splits if_splits)

lemma mdd_dominate_B: "mdd_dominate g v s = Some s' \<Longrightarrow> B s' = B s \<and> out s' = out s"
  by (auto simp: mdd_dominate_def Let_def split: Option.bind_splits if_splits)

lemma mdd_undominate_B: "mdd_undominate g v s = Some s' \<Longrightarrow> B s' = B s \<and> out s' = out s"
  by (auto simp: mdd_undominate_def Let_def split: Option.bind_splits if_splits)

lemma mdd_add_candidate_B: "mdd_add_candidate g v s = Some s' \<Longrightarrow> B s' = B s \<and> out s' = out s"
  by (auto simp: mdd_add_candidate_def split: Option.bind_splits if_splits)

lemma fold_mdd_dominate_B: "fold_option (mdd_dominate g) xs s = Some s' \<Longrightarrow> B s' = B s \<and> out s' = out s"
  using fold_option_preserves[where f = "mdd_dominate g" and h = "\<lambda>s. (B s, out s)" and xs = xs and s = s and s' = s']
  by (auto dest: mdd_dominate_B)

lemma fold_mdd_undominate_B: "fold_option (mdd_undominate g) xs s = Some s' \<Longrightarrow> B s' = B s \<and> out s' = out s"
  using fold_option_preserves[where f = "mdd_undominate g" and h = "\<lambda>s. (B s, out s)" and xs = xs and s = s and s' = s']
  by (auto dest: mdd_undominate_B)

lemma fold_dd_undominate_B: "fold_option (dd_undominate g) xs s = Some s' \<Longrightarrow> B s' = B s \<and> out s' = out s"
  using fold_option_preserves[where f = "dd_undominate g" and h = "\<lambda>s. (B s, out s)" and xs = xs and s = s and s' = s']
  by (auto dest: dd_undominate_B)

lemma mdd_force_in_B: "mdd_force_in g v s = Some s' \<Longrightarrow> B s' = B s"
  by (auto simp: mdd_force_in_def split: Option.bind_splits dest!: mdd_remove_candidate_B fold_mdd_dominate_B)

lemma mdd_force_out_B: "mdd_force_out g v s = Some s' \<Longrightarrow> B s' = B s"
  by (auto simp: mdd_force_out_def split: Option.bind_splits dest!: mdd_remove_candidate_B)

lemma fold_mdd_force_in_B: "fold_option (mdd_force_in g) xs s = Some t \<Longrightarrow> B t = B s"
  by (rule fold_option_preserves[where h = B and f = "mdd_force_in g"]) (auto dest: mdd_force_in_B)

lemma fold_mdd_force_out_B: "fold_option (mdd_force_out g) xs s = Some t \<Longrightarrow> B t = B s"
  by (rule fold_option_preserves[where h = B and f = "mdd_force_out g"]) (auto dest: mdd_force_out_B)

lemma mdd_init_B0:
  assumes "mdd_init var st inst d0 b0 u0 max_mdd0 = Some (g, s')"
  shows "\<exists>b. init_B (generate_all var) st (Graph_n (G inst)) (Graph_n (G inst) - 1) b0 = Some b \<and> B s' = b"
  using assms
  apply (clarsimp simp: mdd_init_def Let_def bind_eq_Some_conv)
  apply (drule fold_mdd_force_out_B)
  apply (drule fold_mdd_force_in_B)
  apply simp
  done
lemma dd_init_B:
  assumes "dd_init var st inst d0 b0 = Some (g, s')" "0 \<le> total_upper_bound st"
  shows "vs_size (B s') = (if \<not> generate_all var \<and> total_upper_bound st < Graph_n (G inst)
                           then total_upper_bound st + 1 else Graph_n (G inst) - 1)"
proof -
  let ?n = "Graph_n (G inst)"
  from dd_init_B0[OF assms(1)] obtain b where
    b: "init_B (generate_all var) st ?n (?n - 1) b0 = Some b" and eq: "B s' = b" by blast
  have "?n < 2 ^ 31" using init_B_bound[OF b] by (simp add: MAX_VERTS_def)
  then show ?thesis using init_B_size[OF b assms(2)] eq by simp
qed

lemma mdd_init_B:
  assumes "mdd_init var st inst d0 b0 u0 max_mdd0 = Some (g, s')" "0 \<le> total_upper_bound st"
  shows "vs_size (B s') = (if \<not> generate_all var \<and> total_upper_bound st < Graph_n (G inst)
                           then total_upper_bound st + 1 else Graph_n (G inst) - 1)"
proof -
  let ?n = "Graph_n (G inst)"
  from mdd_init_B0[OF assms(1)] obtain b where
    b: "init_B (generate_all var) st ?n (?n - 1) b0 = Some b" and eq: "B s' = b" by blast
  have "?n < 2 ^ 31" using init_B_bound[OF b] by (simp add: MAX_VERTS_def)
  then show ?thesis using init_B_size[OF b assms(2)] eq by simp
qed

section \<open>Graph construction limits\<close>

text \<open>
  C9, as stated, fails: a graph with exactly \<open>MAX_VERTS\<close> vertices is rejected by
  \<open>Graph_reset\<close>, although the claim says that sizes up to and including \<open>MAX_VERTS\<close> are
  accepted.
\<close>

theorem C9_reset_max_verts_rejected:
  "Graph_reset 1024 = Inl GraphError"
  by (simp add: Graph_reset_def MAX_VERTS_def)

text \<open>
  C9 (amended): \<open>Graph_reset n\<close> returns a graph with \<open>n\<close> vertices for every
  \<open>0 \<le> n < MAX_VERTS\<close>, and it raises the graph-construction error exactly when
  \<open>n \<ge> MAX_VERTS\<close>.
\<close>

theorem C9_reset_accepts_below_max_verts:
  "(0 \<le> n \<and> n < MAX_VERTS \<longrightarrow> (\<exists>g. Graph_reset n = Inr g \<and> Graph_n g = n))
   \<and> (Graph_reset n = Inl GraphError \<longleftrightarrow> n \<ge> MAX_VERTS)"
  by (simp add: Graph_reset_def Graph_n_def)

theorem C9_reset_accepts_below_max_verts_witness:
  "(0::int) \<le> 1023 \<and> (1023::int) < MAX_VERTS
   \<and> (\<exists>g. Graph_reset 1023 = Inr g \<and> Graph_n g = 1023)
   \<and> Graph_reset 1023 \<noteq> Inl GraphError"
  using C9_reset_accepts_below_max_verts [of 1023]
  by (simp add: MAX_VERTS_def)

subsection \<open>The instance K1\<close>

text \<open>
  C1, as stated, fails: on \<open>K\<^sub>1\<close> the optimising fixed-order solver returns normally and
  hands no set to \<^verbatim>\<open>process_set\<close>.
\<close>

theorem C1_K1_fixed_order_emits_nothing:
  "outcome_error (solve_fo 5 False default_settings K1 new_fo_solver) = None
   \<and> map vs_list (emitted (solve_fo 5 False default_settings K1 new_fo_solver)) = []"
  by code_simp

text \<open>
  C1 (amended): on \<open>K\<^sub>1\<close> the optimising fixed-order solver emits nothing and keeps its
  initial best set \<open>{0}\<close> of size 1, which is a minimum dominating set; the output proxy
  \<^verbatim>\<open>output_best\<close>, which also starts from the full vertex set, ends with \<open>{0}\<close>; and the
  generating fixed-order solver emits exactly \<open>{0}\<close>.
\<close>

theorem C1_K1_fixed_order_best_set:
  "map_sum fst (\<lambda>s. (map vs_list (out s), vs_list (B s)))
     (solve_fo 5 False default_settings K1 new_fo_solver) = Inr ([], [0])
   \<and> map_option vs_list
       (output_best_run 1 (emitted (solve_fo 5 False default_settings K1 new_fo_solver)) new_VertexSet)
     = Some [0]
   \<and> map_sum fst (\<lambda>s. map vs_list (out s))
       (solve_fo 5 True default_settings K1 new_fo_solver) = Inr [[0]]"
  by code_simp

text \<open>The DD and MDD solvers emit nothing on \<open>K\<^sub>1\<close> either; their best set starts empty.\<close>

lemma K1_dd_mdd_emit_nothing:
  "map_sum fst (\<lambda>s. (map vs_list (out s), vs_size (B s)))
     (solve_dd 5 DD_minCD_asc default_settings K1 new_VertexSet new_VertexSet) = Inr ([], 0)"
  "map_sum fst (\<lambda>(c, s). (map vs_list (out s), vs_size (B s)))
     (solve_mdd 5 MDD_minCD_desc default_settings K1 new_VertexSet new_VertexSet new_VertexSet 0) = Inr ([], 0)"
  by code_simp+

subsection \<open>The initial best set\<close>

lemma initial_best_set_generation:
  "map_option (\<lambda>(g, s). vs_size (B s))
     (fo_init True (default_settings\<lparr>total_upper_bound := 1\<rparr>) P3 new_fo_solver) = Some 3"
  by code_simp

lemma initial_best_set_dd:
  "map_option (\<lambda>(g, s). vs_size (B s))
     (dd_init DD_minCD_asc default_settings P3 new_VertexSet new_VertexSet) = Some 2"
  by code_simp

text \<open>
  C2, as stated, fails twice on the path \<open>P\<^sub>3\<close> (\<open>n = 3\<close>): the generating fixed-order solver
  with upper bound 1 starts from a best set of size 3, not 2, and the DD solver without a
  configured bound starts from a best set of size 2, not 3.
\<close>

theorem C2_initial_best_set_counterexample:
  "map_option (\<lambda>(g, s). vs_size (B s))
     (fo_init True (default_settings\<lparr>total_upper_bound := 1\<rparr>) P3 new_fo_solver) = Some 3
   \<and> map_option (\<lambda>(g, s). vs_size (B s))
     (dd_init DD_minCD_asc default_settings P3 new_VertexSet new_VertexSet) = Some 2"
  using initial_best_set_generation initial_best_set_dd by (rule conjI)

text \<open>
  C2 (amended): when the initialisation of \<^verbatim>\<open>solve\<close> completes, the best set of the
  fixed-order solver has size \<open>upper_bound + 1\<close> if the solver optimises and
  \<open>upper_bound < n\<close>, and size \<open>n\<close> otherwise (so always in a generating solver); the best
  set of an optimising DD or MDD solver has size \<open>upper_bound + 1\<close> if \<open>upper_bound < n\<close>.
\<close>

theorem C2_initial_best_set:
  assumes "0 \<le> total_upper_bound st"
  shows "(fo_init gen st inst s = Some (g, s') \<longrightarrow>
            vs_size (B s') = (if \<not> gen \<and> total_upper_bound st < Graph_n (G inst)
                              then total_upper_bound st + 1 else Graph_n (G inst)))
       \<and> (dd_init var st inst d0 b0 = Some (g2, s2) \<and> \<not> generate_all var
            \<and> total_upper_bound st < Graph_n (G inst) \<longrightarrow>
            vs_size (B s2) = total_upper_bound st + 1)
       \<and> (mdd_init var3 st inst d0 b0 u0 max_mdd0 = Some (g3, s3) \<and> \<not> generate_all var3
            \<and> total_upper_bound st < Graph_n (G inst) \<longrightarrow>
            vs_size (B s3) = total_upper_bound st + 1)"
proof (intro conjI impI)
  assume a: "fo_init gen st inst s = Some (g, s')"
  show "vs_size (B s') = (if \<not> gen \<and> total_upper_bound st < Graph_n (G inst)
                              then total_upper_bound st + 1 else Graph_n (G inst))"
    by (rule fo_init_B[OF a assms])
next
  assume a: "dd_init var st inst d0 b0 = Some (g2, s2) \<and> \<not> generate_all var
            \<and> total_upper_bound st < Graph_n (G inst)"
  then have i: "dd_init var st inst d0 b0 = Some (g2, s2)" by (rule conjunct1)
  show "vs_size (B s2) = total_upper_bound st + 1"
    using dd_init_B[OF i assms] a by simp
next
  assume a: "mdd_init var3 st inst d0 b0 u0 max_mdd0 = Some (g3, s3) \<and> \<not> generate_all var3
            \<and> total_upper_bound st < Graph_n (G inst)"
  then have i: "mdd_init var3 st inst d0 b0 u0 max_mdd0 = Some (g3, s3)" by (rule conjunct1)
  show "vs_size (B s3) = total_upper_bound st + 1"
    using mdd_init_B[OF i assms] a by simp
qed

lemma C5_inits_return:
  "fo_init False (default_settings\<lparr>total_upper_bound := 2\<rparr>) C5_cycle new_fo_solver \<noteq> None"
  "dd_init DD_minCD_asc (default_settings\<lparr>total_upper_bound := 2\<rparr>) C5_cycle new_VertexSet new_VertexSet \<noteq> None"
  "mdd_init MDD_minCD_desc (default_settings\<lparr>total_upper_bound := 2\<rparr>) C5_cycle new_VertexSet new_VertexSet new_VertexSet 0 \<noteq> None"
  "generate_all DD_minCD_asc = False" "generate_all MDD_minCD_desc = False"
  "Graph_n (G C5_cycle) = 5"
  by code_simp+

theorem C2_initial_best_set_witness:
  "(0::int) \<le> total_upper_bound (default_settings\<lparr>total_upper_bound := 2\<rparr>)
   \<and> (\<exists>g s. fo_init False (default_settings\<lparr>total_upper_bound := 2\<rparr>) C5_cycle new_fo_solver = Some (g, s)
          \<and> vs_size (B s) = 3)
   \<and> (\<exists>g s. dd_init DD_minCD_asc (default_settings\<lparr>total_upper_bound := 2\<rparr>) C5_cycle new_VertexSet new_VertexSet = Some (g, s)
          \<and> vs_size (B s) = 3)
   \<and> (\<exists>g s. mdd_init MDD_minCD_desc (default_settings\<lparr>total_upper_bound := 2\<rparr>) C5_cycle new_VertexSet new_VertexSet new_VertexSet 0 = Some (g, s)
          \<and> vs_size (B s) = 3)"
proof -
  let ?st = "default_settings\<lparr>total_upper_bound := 2\<rparr>"
  have ub: "(0::int) \<le> total_upper_bound ?st" by simp
  obtain g1 s1 where 1: "fo_init False ?st C5_cycle new_fo_solver = Some (g1, s1)"
    using C5_inits_return(1) by fastforce
  obtain g2 s2 where 2: "dd_init DD_minCD_asc ?st C5_cycle new_VertexSet new_VertexSet = Some (g2, s2)"
    using C5_inits_return(2) by fastforce
  obtain g3 s3 where 3: "mdd_init MDD_minCD_desc ?st C5_cycle new_VertexSet new_VertexSet new_VertexSet 0 = Some (g3, s3)"
    using C5_inits_return(3) by fastforce
  note t = C2_initial_best_set[OF ub, of False C5_cycle new_fo_solver g1 s1 DD_minCD_asc
      new_VertexSet new_VertexSet g2 s2 MDD_minCD_desc new_VertexSet 0 g3 s3]
  have "vs_size (B s1) = 3" "vs_size (B s2) = 3" "vs_size (B s3) = 3"
    using t 1 2 3 C5_inits_return(4,5,6) by simp_all
  then show ?thesis using ub 1 2 3 by simp
qed

subsection \<open>The bounds check\<close>

lemma u32_id: "0 \<le> x \<Longrightarrow> x < 2 ^ 32 \<Longrightarrow> u32 x = x"
  by (simp add: u32_def)

lemma bounds_satisfied_spec:
  assumes "count_minimum_to_dominate (UndominatedDPQ s) (Graph_n g - total_covered s) = Some mn"
    and "0 \<le> vs_size (D s) + mn" and "vs_size (D s) + mn < 2 ^ 32"
  shows "bounds_satisfied gen st g s =
           Some (\<not> spec_prune gen (total_upper_bound st) (vs_size (B s)) (Graph_n g)
                     (total_fixed s) (vs_size (D s)) mn)"
  using assms by (simp add: bounds_satisfied_def spec_prune_def Let_def u32_id)

lemma evaluate_bounds_spec:
  assumes "min_vertices_needed (mdd_stack t) = Some mn"
    and "0 \<le> vs_size (D t) + mn" and "vs_size (D t) + mn < 2 ^ 32"
    and "0 \<le> total_fixed t" and "Graph_n g < MAX_VERTS"
  shows "\<exists>r. evaluate_bounds gen st g t = Some r \<and>
           ((r = 0 \<or> r = - 1) = spec_prune gen (total_upper_bound st) (vs_size (B t)) (Graph_n g)
                     (total_fixed t) (vs_size (D t)) mn)"
  using assms by (auto simp: evaluate_bounds_def spec_prune_def Let_def u32_id)

text \<open>
  C3: in a state in which the lower-bound estimate \<open>min_needed\<close> is computed, with
  \<open>|D| + min_needed\<close>, \<open>total_fixed\<close> and \<open>n\<close> in their ranges, \<^verbatim>\<open>bounds_satisfied\<close> returns
  false, and \<^verbatim>\<open>evaluate_bounds\<close> returns 0 or \<open>-1\<close>, exactly when the pruning rule of the
  specification holds.
\<close>

theorem C3_bounds_check:
  assumes "count_minimum_to_dominate (UndominatedDPQ s) (Graph_n g - total_covered s) = Some mn"
    and "0 \<le> vs_size (D s) + mn" and "vs_size (D s) + mn < 2 ^ 32"
    and "min_vertices_needed (mdd_stack t) = Some mn'"
    and "0 \<le> vs_size (D t) + mn'" and "vs_size (D t) + mn' < 2 ^ 32"
    and "0 \<le> total_fixed t" and "Graph_n g' < MAX_VERTS"
  shows "bounds_satisfied gen st g s =
           Some (\<not> spec_prune gen (total_upper_bound st) (vs_size (B s)) (Graph_n g)
                     (total_fixed s) (vs_size (D s)) mn)
       \<and> (\<exists>r. evaluate_bounds gen' st' g' t = Some r \<and>
           ((r = 0 \<or> r = - 1) = spec_prune gen' (total_upper_bound st') (vs_size (B t)) (Graph_n g')
                     (total_fixed t) (vs_size (D t)) mn'))"
  using bounds_satisfied_spec[OF assms(1-3)] evaluate_bounds_spec[OF assms(4-8)] by (rule conjI)

lemma C5_start_facts:
  "count_minimum_to_dominate (UndominatedDPQ C5_dd_start) (Graph_n C5_graph - total_covered C5_dd_start) = Some 2"
  "vs_size (D C5_dd_start) = 0"
  "min_vertices_needed (mdd_stack C5_mdd_start) = Some 2"
  "vs_size (D C5_mdd_start) = 0"
  "total_fixed C5_mdd_start = 0"
  "Graph_n C5_graph = 5"
  "bounds_satisfied False default_settings C5_graph C5_dd_start = Some True"
  "evaluate_bounds False default_settings C5_graph C5_mdd_start = Some 1"
  by code_simp+

theorem C3_bounds_check_witness:
  "count_minimum_to_dominate (UndominatedDPQ C5_dd_start) (Graph_n C5_graph - total_covered C5_dd_start) = Some 2
   \<and> min_vertices_needed (mdd_stack C5_mdd_start) = Some 2
   \<and> bounds_satisfied False default_settings C5_graph C5_dd_start = Some True
   \<and> evaluate_bounds False default_settings C5_graph C5_mdd_start = Some 1
   \<and> \<not> spec_prune False (total_upper_bound default_settings) (vs_size (B C5_dd_start)) (Graph_n C5_graph)
                     (total_fixed C5_dd_start) (vs_size (D C5_dd_start)) 2
   \<and> \<not> spec_prune False (total_upper_bound default_settings) (vs_size (B C5_mdd_start)) (Graph_n C5_graph)
                     (total_fixed C5_mdd_start) (vs_size (D C5_mdd_start)) 2"
proof -
  have "Graph_n C5_graph < MAX_VERTS" by (simp add: C5_start_facts MAX_VERTS_def)
  from C3_bounds_check[OF C5_start_facts(1) _ _ C5_start_facts(3) _ _ _ this,
      of False default_settings False default_settings]
  show ?thesis
    using C5_start_facts by auto
qed

subsection \<open>The order in which banned siblings are released\<close>

lemma restore_upwards_fold:
  "0 \<le> q \<Longrightarrow> restore_upwards body fixed_list q s = fold_option body (drop (nat q) fixed_list) s"
proof (induction body fixed_list q s rule: restore_upwards.induct)
  case (1 body fixed_list q s)
  show ?case
  proof (cases "q < int (length fixed_list)")
    case True
    then have d: "drop (nat q) fixed_list = fixed_list ! nat q # drop (nat (q + 1)) fixed_list"
      using 1(2) by (simp add: Cons_nth_drop_Suc nat_add_distrib)
    show ?thesis
      using True 1 d by (subst restore_upwards.simps) (auto split: option.splits)
  next
    case False
    then show ?thesis using 1(2) by (subst restore_upwards.simps) simp
  qed
qed

lemma restore_downwards_fold:
  "- 1 \<le> q \<Longrightarrow> q < int (length fixed_list) \<Longrightarrow>
   restore_downwards body fixed_list q s = fold_option body (rev (take (nat (q + 1)) fixed_list)) s"
proof (induction body fixed_list q s rule: restore_downwards.induct)
  case (1 body fixed_list q s)
  show ?case
  proof (cases "0 \<le> q")
    case True
    then have t: "take (nat (q + 1)) fixed_list = take (nat q) fixed_list @ [fixed_list ! nat q]"
      using 1(3) by (simp add: take_Suc_conv_app_nth nat_add_distrib)
    have q: "nat (q - 1 + 1) = nat q" by simp
    show ?thesis
      using True 1 t q by (subst restore_downwards.simps) (auto split: option.splits)
  next
    case False
    then have "q = - 1" using 1(2) by simp
    then show ?thesis by (subst restore_downwards.simps) simp
  qed
qed

text \<open>
  C4, as stated, fails for the MDD solver. On the five-cycle, with the siblings 0 and 2
  banned in this order, the release loop of the MDD solver leaves the candidate set of
  vertex 1 in the order \<open>1, 2, 0\<close>: vertex 2 was released first. Releasing in the order of
  banning would leave \<open>1, 0, 2\<close>.
\<close>

theorem C4_mdd_release_order_counterexample:
  "map_option (\<lambda>s. vs_list (CandidateNeighbours s ! 1))
     (fold_option (mdd_force_out C5_graph) [0, 2] C5_mdd_start \<bind> mdd_restore C5_graph [0, 2])
     = Some [1, 2, 0]
   \<and> map_option (\<lambda>s. vs_list (CandidateNeighbours s ! 1))
     (fold_option (mdd_force_out C5_graph) [0, 2] C5_mdd_start
        \<bind> fold_option (mdd_restore_one C5_graph) [0, 2])
     = Some [1, 0, 2]"
  by code_simp

lemma add_vertex_to_set_dd_list:
  "add_vertex_to_set_dd search g j fl s = Inr (f, fl', s') \<Longrightarrow> fl' = fl @ [j]"
  by (auto simp: add_vertex_to_set_dd_def lift_option_def abort_def bind_eq_Some_conv
           split: option.splits sum.splits prod.splits)

lemma add_vertex_to_set_mdd_list:
  "add_vertex_to_set_mdd search g j fl s = Inr (f, fl', s') \<Longrightarrow> fl' = fl @ [j]"
  by (auto simp: add_vertex_to_set_mdd_def lift_option_def abort_def bind_eq_Some_conv
           split: option.splits sum.splits prod.splits)

lemma add_vertex_to_set_fo_list:
  "add_vertex_to_set_fo search g i j fl s = Inr (fl', s') \<Longrightarrow> fl' = fl @ [j]"
  by (auto simp: add_vertex_to_set_fo_def Let_def abort_def
           split: option.splits sum.splits prod.splits if_splits)

lemma dd_branch_loop_prefix:
  "dd_branch_loop search var st g js fl s = Inr (fl', s') \<Longrightarrow> \<exists>k. fl' = fl @ take k js"
proof (induction js arbitrary: fl s)
  case Nil
  then show ?case by simp
next
  case (Cons j js)
  let ?chk = "if recheck_bounds_in_loop var
              then lift_option s (bounds_satisfied (generate_all var) st g s) else Inr True"
  from Cons.prems obtain ok where ok: "?chk = Inr ok"
    by (cases ?chk) auto
  show ?case
  proof (cases ok)
    case False
    then have "fl' = fl" using Cons.prems ok by simp
    then show ?thesis by (intro exI[where x = 0]) simp
  next
    case True
    then obtain f fl1 s1 where a: "add_vertex_to_set_dd search g j fl s = Inr (f, fl1, s1)"
      using Cons.prems ok by (cases "add_vertex_to_set_dd search g j fl s") auto
    have fl1: "fl1 = fl @ [j]" by (rule add_vertex_to_set_dd_list[OF a])
    show ?thesis
    proof (cases "force_stop_on_trapped_vertex var \<and> f")
      case stop: True
      then have "fl' = fl @ [j]" using Cons.prems ok True a fl1 by simp
      then show ?thesis by (intro exI[where x = 1]) simp
    next
      case go: False
      then have "dd_branch_loop search var st g js fl1 s1 = Inr (fl', s')"
        using Cons.prems ok True a by (auto split: if_splits)
      from Cons.IH[OF this] obtain k where "fl' = fl1 @ take k js" by blast
      then show ?thesis using fl1 by (intro exI[where x = "Suc k"]) simp
    qed
  qed
qed

lemma mdd_branch_loop_prefix:
  "mdd_branch_loop search var st g js fl s = Inr (fl', s') \<Longrightarrow> \<exists>k. fl' = fl @ take k js"
proof (induction js arbitrary: fl s)
  case Nil
  then show ?case by simp
next
  case (Cons j js)
  from Cons.prems obtain f fl1 s1 where a: "add_vertex_to_set_mdd search g j fl s = Inr (f, fl1, s1)"
    by (cases "add_vertex_to_set_mdd search g j fl s") auto
  have fl1: "fl1 = fl @ [j]" by (rule add_vertex_to_set_mdd_list[OF a])
  show ?case
  proof (cases "force_stop_on_trapped_vertex var \<and> f")
    case True
    then have "fl' = fl @ [j]" using Cons.prems a fl1 by simp
    then show ?thesis by (intro exI[where x = 1]) simp
  next
    case False
    let ?chk = "if recheck_bounds_in_loop var
                then lift_option s1 (evaluate_bounds (generate_all var) st g s1) else Inr 1"
    from Cons.prems a False obtain code where code: "?chk = Inr code"
      by (cases ?chk) auto
    show ?thesis
    proof (cases "code \<noteq> 1")
      case True
      then have "fl' = fl @ [j]" using Cons.prems a fl1 False code by simp
      then show ?thesis by (intro exI[where x = 1]) simp
    next
      case go: False
      then have "mdd_branch_loop search var st g js fl1 s1 = Inr (fl', s')"
        using Cons.prems a False code by (auto split: if_splits)
      from Cons.IH[OF this] obtain k where "fl' = fl1 @ take k js" by blast
      then show ?thesis using fl1 by (intro exI[where x = "Suc k"]) simp
    qed
  qed
qed

lemma fo_branch_loop_all:
  "fo_branch_loop search g i js fl s = Inr (fl', s') \<Longrightarrow> fl' = fl @ js"
proof (induction js arbitrary: fl s)
  case Nil
  then show ?case by simp
next
  case (Cons j js)
  from Cons.prems obtain fl1 s1 where a: "add_vertex_to_set_fo search g i j fl s = Inr (fl1, s1)"
    by (cases "add_vertex_to_set_fo search g i j fl s") auto
  have fl1: "fl1 = fl @ [j]" by (rule add_vertex_to_set_fo_list[OF a])
  have "fo_branch_loop search g i js fl1 s1 = Inr (fl', s')" using Cons.prems a by simp
  from Cons.IH[OF this] show ?case using fl1 by simp
qed

lemma dd_body_release:
  assumes nl: "total_covered s \<noteq> Graph_n g"
    and i: "dd_choose_vertex var s = Some i" and iv: "i \<noteq> INVALID_VERTEX"
    and bnd: "recheck_bounds_in_loop var \<or> bounds_satisfied (generate_all var) st g s = Some True"
    and ret: "dd_body search var st g s = Inr s''"
  shows "\<exists>arr k s'. rank_neighbours_dd (rank_neighbours_rule var) g i s = Some (arr, int (length arr))
           \<and> dd_branch_loop search var st g arr [] s = Inr (take k arr, s')
           \<and> fold_option (dd_add_candidate g) (take k arr) s' = Some s''"
proof -
  from ret nl i iv obtain vx where vx: "vertex_at g i = Some vx"
    by (cases "vertex_at g i") (auto simp: dd_body_def abort_def)
  have ok: "(if \<not> recheck_bounds_in_loop var
             then lift_option s (bounds_satisfied (generate_all var) st g s) else Inr True) = Inr True"
    using bnd by (auto simp: lift_option_def)
  from ret nl i iv vx ok obtain arr cnt where
    r: "rank_neighbours_dd (rank_neighbours_rule var) g i s = Some (arr, cnt)"
    by (cases "rank_neighbours_dd (rank_neighbours_rule var) g i s")
       (auto simp: dd_body_def abort_def)
  have cnt: "cnt = int (length arr)"
    using ret nl i iv vx ok r by (auto simp: dd_body_def abort_def split: if_splits)
  from ret nl i iv vx ok r cnt obtain fl s' where
    b: "dd_branch_loop search var st g arr [] s = Inr (fl, s')"
    by (cases "dd_branch_loop search var st g arr [] s") (auto simp: dd_body_def)
  have "lift_option s' (dd_restore g fl s') = Inr s''"
    using ret nl i iv vx ok r cnt b by (simp add: dd_body_def)
  then have "dd_restore g fl s' = Some s''"
    by (auto simp: lift_option_def abort_def split: option.splits)
  then have rel: "fold_option (dd_add_candidate g) fl s' = Some s''"
    by (simp add: dd_restore_def restore_upwards_fold)
  from dd_branch_loop_prefix[OF b] obtain k where "fl = take k arr" by auto
  then show ?thesis using r cnt b rel by blast
qed

lemma mdd_body_release:
  assumes nl: "total_covered s \<noteq> Graph_n g"
    and bnd: "evaluate_bounds (generate_all var) st g s = Some 1"
    and ret: "mdd_body search var st g s = Inr (code, s'')"
  shows "\<exists>i arr k s'. choose_next_vertex var g s = Some i
           \<and> rank_neighbours_mdd (rank_neighbours_rule var) g i s = Some (arr, int (length arr))
           \<and> mdd_branch_loop search var st g arr [] s = Inr (take k arr, s')
           \<and> fold_option (mdd_restore_one g) (rev (take k arr)) s' = Some s''"
proof -
  from ret nl bnd obtain i where i: "choose_next_vertex var g s = Some i"
    by (cases "choose_next_vertex var g s") (auto simp: mdd_body_def abort_def)
  from ret nl bnd i obtain arr cnt where
    r: "rank_neighbours_mdd (rank_neighbours_rule var) g i s = Some (arr, cnt)"
    by (cases "rank_neighbours_mdd (rank_neighbours_rule var) g i s")
       (auto simp: mdd_body_def abort_def)
  have cnt: "cnt = int (length arr)"
    using ret nl bnd i r by (auto simp: mdd_body_def abort_def split: if_splits)
  from ret nl bnd i r cnt obtain fl s' where
    b: "mdd_branch_loop search var st g arr [] s = Inr (fl, s')"
    by (cases "mdd_branch_loop search var st g arr [] s") (auto simp: mdd_body_def)
  have "mdd_restore g fl s' = Some s''"
    using ret nl bnd i r cnt b by (auto simp: mdd_body_def abort_def split: option.splits)
  then have rel: "fold_option (mdd_restore_one g) (rev fl) s' = Some s''"
    by (simp add: mdd_restore_def restore_downwards_fold)
  from mdd_branch_loop_prefix[OF b] obtain k where "fl = take k arr" by auto
  then show ?thesis using i r cnt b rel by blast
qed

lemma fo_body_release:
  assumes nl: "total_covered s \<noteq> Graph_n g"
    and arr: "next_uncovered (covered s) i = Some i'" "fo_neighbour_array g i' s = Some arr"
    and bnd0: "\<not> fo_bound_violated GENERATE_ALL st g s"
    and ret: "fo_body search GENERATE_ALL st g i s = Inr s''"
  shows "\<exists>s'. fo_branch_loop search g i' arr [] s = Inr (arr, s')
           \<and> s'' = fold (\<lambda>j t. t\<lparr>fixed := (fixed t)(j := 0), total_fixed := total_fixed t - 1\<rparr>) (rev arr) s'"
proof -
  have bnd: "\<not> (if GENERATE_ALL
                 then u32 (vs_size (D s) + (Graph_n g - total_covered s + max_deg s) sdiv (max_deg s + 1))
                        > total_upper_bound st
                      \<or> Graph_n g - total_fixed s < (Graph_n g - total_covered s + max_deg s) sdiv (max_deg s + 1)
                 else vs_size (D s) + (Graph_n g - total_covered s + max_deg s) sdiv (max_deg s + 1)
                        \<ge> vs_size (B s)
                      \<or> Graph_n g - total_fixed s < (Graph_n g - total_covered s + max_deg s) sdiv (max_deg s + 1))"
    using bnd0 by (simp add: fo_bound_violated_def Let_def)
  have pre: "\<not> i' \<ge> Graph_n g" "max_deg s + 1 \<noteq> 0"
    using ret nl arr by (auto simp: fo_body_def Let_def abort_def split: if_splits)
  from ret nl arr pre bnd obtain fl s' where
    b: "fo_branch_loop search g i' arr [] s = Inr (fl, s')"
    by (cases "fo_branch_loop search g i' arr [] s") (auto simp: fo_body_def Let_def split: if_splits)
  have "s'' = fo_unfix fl s'"
    using ret nl arr pre bnd b by (auto simp: fo_body_def Let_def split: if_splits)
  moreover have "fl = arr" using fo_branch_loop_all[OF b] by simp
  ultimately show ?thesis using b by (simp add: fo_unfix_def)
qed

text \<open>
  C4 (amended). Whenever \<^verbatim>\<open>FindDominatingSet\<close> reaches its branching loop and returns, the
  list \<^verbatim>\<open>fixed_list\<close> that the loop leaves holds the siblings it banned, in the order of
  banning: it is an initial stretch of the ranked candidates \<open>arr\<close>, which the loop bans from
  left to right. The DD solver then hands them to \<^verbatim>\<open>add_candidate\<close> in that order; the MDD
  solver hands them to \<^verbatim>\<open>unexclude_dominator\<close> and \<^verbatim>\<open>add_candidate\<close> in the reverse order,
  the sibling banned last first; the fixed-order solver bans all its candidates and clears
  their flags in the reverse order as well.
\<close>

theorem C4_release_order:
  "(total_covered s \<noteq> Graph_n g \<and> dd_choose_vertex var s = Some i \<and> i \<noteq> INVALID_VERTEX
      \<and> (recheck_bounds_in_loop var \<or> bounds_satisfied (generate_all var) st g s = Some True)
      \<and> dd_body dd_search var st g s = Inr s''
    \<longrightarrow> (\<exists>arr k s'. rank_neighbours_dd (rank_neighbours_rule var) g i s = Some (arr, int (length arr))
           \<and> dd_branch_loop dd_search var st g arr [] s = Inr (take k arr, s')
           \<and> fold_option (dd_add_candidate g) (take k arr) s' = Some s''))
   \<and> (total_covered t \<noteq> Graph_n g \<and> evaluate_bounds (generate_all var) st g t = Some 1
      \<and> mdd_body mdd_search var st g t = Inr (code, t'')
    \<longrightarrow> (\<exists>i arr k t'. choose_next_vertex var g t = Some i
           \<and> rank_neighbours_mdd (rank_neighbours_rule var) g i t = Some (arr, int (length arr))
           \<and> mdd_branch_loop mdd_search var st g arr [] t = Inr (take k arr, t')
           \<and> fold_option (mdd_restore_one g) (rev (take k arr)) t' = Some t''))
   \<and> (total_covered u \<noteq> Graph_n g \<and> next_uncovered (covered u) p = Some p'
      \<and> fo_neighbour_array g p' u = Some cands \<and> \<not> fo_bound_violated GENERATE_ALL st g u
      \<and> fo_body fo_search GENERATE_ALL st g p u = Inr u''
    \<longrightarrow> (\<exists>u'. fo_branch_loop fo_search g p' cands [] u = Inr (cands, u')
           \<and> u'' = fold (\<lambda>j t. t\<lparr>fixed := (fixed t)(j := 0), total_fixed := total_fixed t - 1\<rparr>)
                        (rev cands) u'))"
  using dd_body_release[of s g var i st dd_search s'']
    mdd_body_release[of t g var st mdd_search code t'']
    fo_body_release[of u g p p' cands GENERATE_ALL st fo_search u'']
  by blast

lemma C5_dd_body_runs:
  "total_covered C5_dd_start \<noteq> Graph_n C5_graph"
  "dd_choose_vertex DD_minCD_asc C5_dd_start = Some 0"
  "bounds_satisfied (generate_all DD_minCD_asc) default_settings C5_graph C5_dd_start = Some True"
  "case dd_body (\<lambda>t. Inr t) DD_minCD_asc default_settings C5_graph C5_dd_start of
     Inl e \<Rightarrow> False | Inr s \<Rightarrow> True"
  "rank_neighbours_dd (rank_neighbours_rule DD_minCD_asc) C5_graph 0 C5_dd_start = Some ([4, 1, 0], 3)"
  "case dd_branch_loop (\<lambda>t. Inr t) DD_minCD_asc default_settings C5_graph [4, 1, 0] [] C5_dd_start of
     Inl e \<Rightarrow> False | Inr (fl, s) \<Rightarrow> fl = [4, 1, 0]"
  by code_simp+

lemma C5_mdd_body_runs:
  "total_covered C5_mdd_start \<noteq> Graph_n C5_graph"
  "evaluate_bounds (generate_all MDD_minCD_desc) default_settings C5_graph C5_mdd_start = Some 1"
  "case mdd_body (\<lambda>t. Inr (1, t)) MDD_minCD_desc default_settings C5_graph C5_mdd_start of
     Inl e \<Rightarrow> False | Inr s \<Rightarrow> True"
  "choose_next_vertex MDD_minCD_desc C5_graph C5_mdd_start = Some 0"
  "rank_neighbours_mdd (rank_neighbours_rule MDD_minCD_desc) C5_graph 0 C5_mdd_start = Some ([0, 1, 4], 3)"
  "case mdd_branch_loop (\<lambda>t. Inr (1, t)) MDD_minCD_desc default_settings C5_graph [0, 1, 4] []
          C5_mdd_start of
     Inl e \<Rightarrow> False | Inr (fl, s) \<Rightarrow> fl = [0, 1, 4]"
  by code_simp+

lemma P3_fo_body_runs:
  "total_covered P3_fo_start \<noteq> Graph_n P3_graph"
  "next_uncovered (covered P3_fo_start) 0 = Some 0"
  "fo_neighbour_array P3_graph 0 P3_fo_start = Some [0, 1]"
  "\<not> fo_bound_violated False default_settings P3_graph P3_fo_start"
  "case fo_body (\<lambda>i t. Inr t) False default_settings P3_graph 0 P3_fo_start of
     Inl e \<Rightarrow> False | Inr s \<Rightarrow> True"
  by code_simp+

theorem C4_release_order_witness:
  "(\<exists>s' s''. dd_body (\<lambda>t. Inr t) DD_minCD_asc default_settings C5_graph C5_dd_start = Inr s''
       \<and> dd_branch_loop (\<lambda>t. Inr t) DD_minCD_asc default_settings C5_graph [4, 1, 0] [] C5_dd_start
           = Inr ([4, 1, 0], s')
       \<and> fold_option (dd_add_candidate C5_graph) [4, 1, 0] s' = Some s'')
   \<and> (\<exists>t' t''. mdd_body (\<lambda>t. Inr (1, t)) MDD_minCD_desc default_settings C5_graph C5_mdd_start = Inr (1, t'')
       \<and> mdd_branch_loop (\<lambda>t. Inr (1, t)) MDD_minCD_desc default_settings C5_graph [0, 1, 4] [] C5_mdd_start
           = Inr ([0, 1, 4], t')
       \<and> fold_option (mdd_restore_one C5_graph) [4, 1, 0] t' = Some t'')
   \<and> (\<exists>u' u''. fo_body (\<lambda>i t. Inr t) False default_settings P3_graph 0 P3_fo_start = Inr u''
       \<and> fo_branch_loop (\<lambda>i t. Inr t) P3_graph 0 [0, 1] [] P3_fo_start = Inr ([0, 1], u')
       \<and> u'' = fold (\<lambda>j t. t\<lparr>fixed := (fixed t)(j := 0), total_fixed := total_fixed t - 1\<rparr>) [1, 0] u')"
proof -
  obtain s'' where d: "dd_body (\<lambda>t. Inr t) DD_minCD_asc default_settings C5_graph C5_dd_start = Inr s''"
    using C5_dd_body_runs(4) by (auto split: sum.splits)
  have dpre: "total_covered C5_dd_start \<noteq> Graph_n C5_graph \<and> dd_choose_vertex DD_minCD_asc C5_dd_start = Some 0
      \<and> 0 \<noteq> INVALID_VERTEX
      \<and> (recheck_bounds_in_loop DD_minCD_asc
          \<or> bounds_satisfied (generate_all DD_minCD_asc) default_settings C5_graph C5_dd_start = Some True)
      \<and> dd_body (\<lambda>t. Inr t) DD_minCD_asc default_settings C5_graph C5_dd_start = Inr s''"
    using C5_dd_body_runs(1,2,3) d by (simp add: INVALID_VERTEX_def)
  from C4_release_order[where s = C5_dd_start and g = C5_graph and var = DD_minCD_asc and i = 0
      and st = default_settings and dd_search = "\<lambda>t. Inr t" and s'' = s'', THEN conjunct1, THEN mp, OF dpre]
  obtain arr k s' where dd:
    "rank_neighbours_dd (rank_neighbours_rule DD_minCD_asc) C5_graph 0 C5_dd_start = Some (arr, int (length arr))"
    "dd_branch_loop (\<lambda>t. Inr t) DD_minCD_asc default_settings C5_graph arr [] C5_dd_start = Inr (take k arr, s')"
    "fold_option (dd_add_candidate C5_graph) (take k arr) s' = Some s''"
    by blast
  have da: "arr = [4, 1, 0]" using dd(1) C5_dd_body_runs(5) by simp
  have dk: "take k arr = [4, 1, 0]" using dd(2) C5_dd_body_runs(6) da by simp
  obtain c t'' where m: "mdd_body (\<lambda>t. Inr (1, t)) MDD_minCD_desc default_settings C5_graph C5_mdd_start = Inr (c, t'')"
    using C5_mdd_body_runs(3) by (auto split: sum.splits)
  have mpre: "total_covered C5_mdd_start \<noteq> Graph_n C5_graph
      \<and> evaluate_bounds (generate_all MDD_minCD_desc) default_settings C5_graph C5_mdd_start = Some 1
      \<and> mdd_body (\<lambda>t. Inr (1, t)) MDD_minCD_desc default_settings C5_graph C5_mdd_start = Inr (c, t'')"
    using C5_mdd_body_runs(1,2) m by simp
  from C4_release_order[where t = C5_mdd_start and g = C5_graph and var = MDD_minCD_desc
      and st = default_settings and mdd_search = "\<lambda>t. Inr (1, t)" and code = c and t'' = t'',
      THEN conjunct2, THEN conjunct1, THEN mp, OF mpre]
  obtain i arr2 k2 t' where mm:
    "choose_next_vertex MDD_minCD_desc C5_graph C5_mdd_start = Some i"
    "rank_neighbours_mdd (rank_neighbours_rule MDD_minCD_desc) C5_graph i C5_mdd_start = Some (arr2, int (length arr2))"
    "mdd_branch_loop (\<lambda>t. Inr (1, t)) MDD_minCD_desc default_settings C5_graph arr2 [] C5_mdd_start = Inr (take k2 arr2, t')"
    "fold_option (mdd_restore_one C5_graph) (rev (take k2 arr2)) t' = Some t''"
    by blast
  have mi: "i = 0" using mm(1) C5_mdd_body_runs(4) by simp
  have ma: "arr2 = [0, 1, 4]" using mm(2) mi C5_mdd_body_runs(5) by simp
  have mk: "take k2 arr2 = [0, 1, 4]" using mm(3) C5_mdd_body_runs(6) ma by simp
  have mc: "c = 1"
    using m mm(1,2,3) C5_mdd_body_runs(1,2)
    by (auto simp: mdd_body_def Let_def abort_def split: option.splits if_splits)
  obtain u'' where f: "fo_body (\<lambda>i t. Inr t) False default_settings P3_graph 0 P3_fo_start = Inr u''"
    using P3_fo_body_runs(5) by (auto split: sum.splits)
  have fpre: "total_covered P3_fo_start \<noteq> Graph_n P3_graph \<and> next_uncovered (covered P3_fo_start) 0 = Some 0
      \<and> fo_neighbour_array P3_graph 0 P3_fo_start = Some [0, 1]
      \<and> \<not> fo_bound_violated False default_settings P3_graph P3_fo_start
      \<and> fo_body (\<lambda>i t. Inr t) False default_settings P3_graph 0 P3_fo_start = Inr u''"
    using P3_fo_body_runs(1,2,3,4) f by simp
  from C4_release_order[where u = P3_fo_start and g = P3_graph and p = 0 and p' = 0 and cands = "[0, 1]"
      and GENERATE_ALL = False and st = default_settings and fo_search = "\<lambda>i t. Inr t" and u'' = u'',
      THEN conjunct2, THEN conjunct2, THEN mp, OF fpre]
  obtain u' where ff: "fo_branch_loop (\<lambda>i t. Inr t) P3_graph 0 [0, 1] [] P3_fo_start = Inr ([0, 1], u')"
    "u'' = fold (\<lambda>j t. t\<lparr>fixed := (fixed t)(j := 0), total_fixed := total_fixed t - 1\<rparr>) (rev [0, 1]) u'"
    by blast
  have "\<exists>s' s''. dd_body (\<lambda>t. Inr t) DD_minCD_asc default_settings C5_graph C5_dd_start = Inr s''
       \<and> dd_branch_loop (\<lambda>t. Inr t) DD_minCD_asc default_settings C5_graph [4, 1, 0] [] C5_dd_start
           = Inr ([4, 1, 0], s')
       \<and> fold_option (dd_add_candidate C5_graph) [4, 1, 0] s' = Some s''"
    using d dd(2,3) da dk by auto
  moreover have "\<exists>t' t''. mdd_body (\<lambda>t. Inr (1, t)) MDD_minCD_desc default_settings C5_graph C5_mdd_start = Inr (1, t'')
       \<and> mdd_branch_loop (\<lambda>t. Inr (1, t)) MDD_minCD_desc default_settings C5_graph [0, 1, 4] [] C5_mdd_start
           = Inr ([0, 1, 4], t')
       \<and> fold_option (mdd_restore_one C5_graph) [4, 1, 0] t' = Some t''"
    using m mm(3,4) ma mk mc by auto
  moreover have "\<exists>u' u''. fo_body (\<lambda>i t. Inr t) False default_settings P3_graph 0 P3_fo_start = Inr u''
       \<and> fo_branch_loop (\<lambda>i t. Inr t) P3_graph 0 [0, 1] [] P3_fo_start = Inr ([0, 1], u')
       \<and> u'' = fold (\<lambda>j t. t\<lparr>fixed := (fixed t)(j := 0), total_fixed := total_fixed t - 1\<rparr>) [1, 0] u'"
    using f ff by auto
  ultimately show ?thesis by blast
qed

subsection \<open>The greedy lower bound of the degree queue\<close>

lemma c_division_is_ceiling:
  assumes "0 < d" "0 < m"
  shows "(m + d - 1) sdiv d = \<lceil>real_of_int m / real_of_int d\<rceil>"
proof -
  define k where "k = (m + d - 1) div d"
  have s: "(m + d - 1) sdiv d = k"
    using assms by (simp add: signed_divide_int_def k_def sgn_if)
  have e: "k * d + (m + d - 1) mod d = m + d - 1"
    unfolding k_def by (rule div_mult_mod_eq)
  have lo: "k * d \<le> m + d - 1"
    using e pos_mod_sign[OF assms(1), of "m + d - 1"] by linarith
  have hi: "m + d - 1 < (k + 1) * d"
    using e pos_mod_bound[OF assms(1), of "m + d - 1"] by (simp add: distrib_right)
  have 1: "real_of_int k - 1 < real_of_int m / real_of_int d"
  proof -
    have "(k - 1) * d < m" using lo by (simp add: algebra_simps)
    then have "real_of_int ((k - 1) * d) < real_of_int m" by linarith
    then show ?thesis using assms(1) by (simp add: pos_less_divide_eq)
  qed
  have 2: "real_of_int m / real_of_int d \<le> real_of_int k"
  proof -
    have "m \<le> k * d" using hi by (simp add: algebra_simps)
    then have "real_of_int m \<le> real_of_int (k * d)" by linarith
    then show ?thesis using assms(1) by (simp add: pos_divide_le_eq)
  qed
  show ?thesis using s ceiling_unique[OF 1 2] by simp
qed

lemma ceiling_exceeds:
  assumes "0 < d" "\<not> \<lceil>real_of_int m / real_of_int d\<rceil> \<le> u"
  shows "0 < m - d * u"
proof -
  have "real_of_int u < real_of_int m / real_of_int d"
    using assms(2) by (simp add: not_le less_ceiling_iff)
  then have "real_of_int u * real_of_int d < real_of_int m"
    using assms(1) by (simp add: pos_less_divide_eq)
  then have "real_of_int (u * d) < real_of_int m" by simp
  then have "u * d < m" by linarith
  then show ?thesis by (simp add: algebra_simps)
qed

lemma count_minimum_loop_greedy:
  assumes "rank_chain q p nds" and "deg (head_tail q) = INVALID_VERTEX"
    and "\<forall>nd \<in> set nds. in_array (deg nd)" and "0 < m"
  shows "count_minimum_loop q p m cnt =
           Some (greedy_estimate (map (\<lambda>nd. (deg nd, unfixed_count nd)) nds) m cnt)"
  using assms
proof (induction nds arbitrary: p m cnt)
  case Nil
  then show ?case
    by (subst count_minimum_loop.simps) (simp add: get_node_def)
next
  case (Cons nd nds)
  from Cons.prems(1) obtain i where p: "p = NodeAt i" and i: "in_array i" and nd: "nodes q i = nd"
    and rest: "rank_chain q (n_prev nd) nds"
    by (auto split: node_ptr.splits)
  have g: "get_node q p = Some nd" using p i nd by (simp add: get_node_def)
  have d: "0 \<le> deg nd" "deg nd \<noteq> INVALID_VERTEX"
    using Cons.prems(3) by (auto simp: in_array_def MAX_VERTS_def INVALID_VERTEX_def)
  show ?case
  proof (cases "deg nd = 0")
    case True
    then show ?thesis using g by (subst count_minimum_loop.simps) simp
  next
    case False
    then have pos: "0 < deg nd" using d by simp
    note c = c_division_is_ceiling[OF pos Cons.prems(4)]
    show ?thesis
    proof (cases "\<lceil>real_of_int m / real_of_int (deg nd)\<rceil> \<le> unfixed_count nd")
      case True
      then show ?thesis using g False d c
        by (subst count_minimum_loop.simps) simp
    next
      case no: False
      have m': "0 < m - deg nd * unfixed_count nd" by (rule ceiling_exceeds[OF pos no])
      have ih: "count_minimum_loop q (n_prev nd) (m - deg nd * unfixed_count nd) (cnt + unfixed_count nd)
                 = Some (greedy_estimate (map (\<lambda>nd. (deg nd, unfixed_count nd)) nds)
                          (m - deg nd * unfixed_count nd) (cnt + unfixed_count nd))"
        using Cons.IH[OF rest Cons.prems(2) _ m'] Cons.prems(3) by simp
      show ?thesis using g False d c no ih
        by (subst count_minimum_loop.simps) simp
    qed
  qed
qed

text \<open>
  What the loop does: for \<open>m > 0\<close> and a queue whose rank list, followed from the tail, is
  \<open>nds\<close>, \<^verbatim>\<open>count_minimum_to_dominate(m)\<close> returns the greedy estimate on the \<^verbatim>\<open>deg\<close> fields
  and unfixed counts of \<open>nds\<close>, in the order in which the list holds them.
\<close>

lemma count_minimum_to_dominate_chain:
  assumes "0 < m" and "rank_chain q (n_prev (head_tail q)) nds"
    and "deg (head_tail q) = INVALID_VERTEX" and "\<forall>nd \<in> set nds. in_array (deg nd)"
  shows "count_minimum_to_dominate q m =
           Some (greedy_estimate (map (\<lambda>nd. (deg nd, unfixed_count nd)) nds) m 0)"
  unfolding count_minimum_to_dominate_def
  by (rule count_minimum_loop_greedy[OF assms(2,3,4,1)])

lemma P4_queue_facts:
  "rank_chain P4_queue (n_prev (head_tail P4_queue)) [nodes P4_queue 3, nodes P4_queue 2]"
  "deg (head_tail P4_queue) = INVALID_VERTEX"
  "map (\<lambda>nd. (deg nd, unfixed_count nd)) [nodes P4_queue 3, nodes P4_queue 2] = [(3, 1), (2, 2)]"
  "count_minimum_to_dominate P4_queue 7 = Some 3"
  "count_minimum_to_dominate P4_queue 8 = Some 1025"
  by code_simp+

lemma count_minimum_to_dominate_P4:
  "count_minimum_to_dominate P4_queue 7 = Some (greedy_estimate [(3, 1), (2, 2)] 7 0)
   \<and> count_minimum_to_dominate P4_queue 8 = Some (greedy_estimate [(3, 1), (2, 2)] 8 0)"
proof -
  have r: "\<forall>nd \<in> set [nodes P4_queue 3, nodes P4_queue 2]. in_array (deg nd)"
    using P4_queue_facts(3) by (auto simp: in_array_def MAX_VERTS_def)
  have 7: "count_minimum_to_dominate P4_queue 7 = Some (greedy_estimate [(3, 1), (2, 2)] 7 0)"
    using count_minimum_to_dominate_chain[OF _ P4_queue_facts(1,2) r, of 7] P4_queue_facts(3) by simp
  have 8: "count_minimum_to_dominate P4_queue 8 = Some (greedy_estimate [(3, 1), (2, 2)] 8 0)"
    using count_minimum_to_dominate_chain[OF _ P4_queue_facts(1,2) r, of 8] P4_queue_facts(3) by simp
  show ?thesis using 7 8 by simp
qed

lemma P3_queue_facts:
  "count_minimum_to_dominate (UndominatedDPQ P3_dd_start) 3 = Some 1025"
  "ranks_high_to_low (UndominatedDPQ P3_dd_start) = [(3, 1), (2, 2)]"
  "Graph_n P3_graph - total_covered P3_dd_start = 3"
  "map vdeg P3_graph = [2, 3, 2]"
  "deg (nodes (UndominatedDPQ P3_dd_start) 3) = 0"
  "bounds_satisfied False default_settings P3_graph P3_dd_start = Some False"
  by code_simp+

text \<open>
  Claim C7 fails on the code. On the path \<open>0 - 1 - 2\<close> the DD search starts with the middle
  vertex on rank 3 and the two ends on rank 2: walking the ranks from the highest down, the
  greedy estimate for \<open>m = 3\<close> uncovered vertices is 1. \<^verbatim>\<open>count_minimum_to_dominate(3)\<close> returns
  \<open>MAX_VERTS + 1\<close>: the constructor wrote \<^verbatim>\<open>nodes[i].deg = i\<close> for \<open>i < n\<close> only, so the node of
  rank \<open>n = 3\<close>, where the walk starts, still holds the degree 0 of a fresh node.
\<close>

theorem C7_count_minimum_on_P3:
  "count_minimum_to_dominate (UndominatedDPQ P3_dd_start) (Graph_n P3_graph - total_covered P3_dd_start)
     = Some (MAX_VERTS + 1)
   \<and> ranks_high_to_low (UndominatedDPQ P3_dd_start) = [(3, 1), (2, 2)]
   \<and> greedy_estimate (ranks_high_to_low (UndominatedDPQ P3_dd_start))
        (Graph_n P3_graph - total_covered P3_dd_start) 0 = 1
   \<and> deg (nodes (UndominatedDPQ P3_dd_start) 3) = 0"
  using P3_queue_facts(1,2,3,5) by (simp add: MAX_VERTS_def)

subsection \<open>Emitted sets shrink in optimisation mode\<close>

lemma extends_below_refl: "extends_below b t b t"
  by (simp add: extends_below_def decreasing_sizes_def)

lemma extends_below_trans:
  assumes "extends_below b t b1 t1" "extends_below b1 t1 b2 t2"
  shows "extends_below b t b2 t2"
proof -
  from assms(1) obtain ys where ys: "t1 = t @ ys" "decreasing_sizes ys"
    "\<forall>y \<in> set ys. vs_size y < b \<and> b1 \<le> vs_size y" "b1 \<le> b"
    unfolding extends_below_def by blast
  from assms(2) obtain zs where zs: "t2 = t1 @ zs" "decreasing_sizes zs"
    "\<forall>y \<in> set zs. vs_size y < b1 \<and> b2 \<le> vs_size y" "b2 \<le> b1"
    unfolding extends_below_def by blast
  have "decreasing_sizes (ys @ zs)"
    using ys(2,3) zs(2,3) by (fastforce simp: decreasing_sizes_def sorted_wrt_append)
  moreover have "\<forall>y \<in> set (ys @ zs). vs_size y < b \<and> b2 \<le> vs_size y"
    using ys(3,4) zs(3,4) by fastforce
  ultimately show ?thesis
    unfolding extends_below_def using ys(1,4) zs(1,4)
    by (intro exI[of _ "ys @ zs"]) simp
qed

lemma good_outcome_Inr: "good_outcome b t (Inr s') = extends_below b t (vs_size (B s')) (out s')"
  by (simp add: good_outcome_def)

lemma good_outcome_abort:
  "extends_below b t b1 (out s) \<Longrightarrow> good_outcome b t (abort e s)"
  by (auto simp: good_outcome_def abort_def)

lemma good_outcome_abort_refl [simp]: "good_outcome (vs_size (B s)) (out s) (abort e s)"
  by (rule good_outcome_abort[OF extends_below_refl])

lemma map_sum_abort [simp]: "map_sum f h (abort e s) = Inl (f (e, out s))"
  by (simp add: abort_def)

lemma good_outcome_Inl_refl [simp]: "good_outcome b t (Inl (e, t))"
  using extends_below_refl by (auto simp: good_outcome_def)

lemma good_outcome_bind:
  assumes "extends_below b t b1 t1" "good_outcome b1 t1 r"
  shows "good_outcome b t r"
  using assms by (auto simp: good_outcome_def split: sum.splits dest: extends_below_trans)

lemma record_solution_extends:
  "extends_below (vs_size (B s)) (out s)
     (vs_size (B (record_solution False st s))) (out (record_solution False st s))"
  by (auto simp: record_solution_def extends_below_def decreasing_sizes_def)

lemma add_vertex_to_set_fo_good:
  assumes "\<And>i t. good_outcome (vs_size (B t)) (out t) (search i t)"
  shows "good_outcome (vs_size (B s)) (out s) (map_sum id snd (add_vertex_to_set_fo search g i j fl s))"
proof -
  have r: "extends_below (vs_size (B s)) (out s) (vs_size (B s)) (out s)" by (rule extends_below_refl)
  show ?thesis
  proof (cases "in_array j")
    case False
    then show ?thesis by (simp add: add_vertex_to_set_fo_def)
  next
    case True
    define s1 where "s1 = s\<lparr>fixed := (fixed s)(j := 1), total_fixed := total_fixed s + 1\<rparr>"
    have s1: "B s1 = B s" "out s1 = out s" by (simp_all add: s1_def)
    show ?thesis
    proof (cases "vs_add j (D s1)")
      case None
      then show ?thesis using True r s1
        by (simp add: add_vertex_to_set_fo_def Let_def s1_def[symmetric])
    next
      case (Some d1)
      note d1 = this
      show ?thesis
      proof (cases "vertex_at g j")
        case None
        then show ?thesis using True r s1 d1
          by (simp add: add_vertex_to_set_fo_def Let_def s1_def[symmetric])
      next
        case (Some vx)
        note vx = this
        show ?thesis
        proof (cases "cover_list (neighbours vx) (covered s1, total_covered s1)")
          case None
          then show ?thesis using True r s1 d1 vx
            by (simp add: add_vertex_to_set_fo_def Let_def s1_def[symmetric])
        next
          case (Some ct)
          obtain cov tc where ct: "ct = (cov, tc)" by (cases ct)
          define s1' where "s1' = s1\<lparr>D := d1, covered := cov, total_covered := tc\<rparr>"
          have s1': "B s1' = B s" "out s1' = out s" by (simp_all add: s1'_def s1)
          have g: "good_outcome (vs_size (B s)) (out s) (search (i + 1) s1')"
            using assms[where i = "i + 1" and t = s1'] s1' by simp
          show ?thesis
          proof (cases "search (i + 1) s1'")
            case (Inl e)
            then show ?thesis using True d1 vx Some ct g
              by (simp add: add_vertex_to_set_fo_def Let_def s1_def[symmetric] s1'_def[symmetric] good_outcome_def)
          next
            case (Inr s2)
            then have e: "extends_below (vs_size (B s)) (out s) (vs_size (B s2)) (out s2)"
              using g by (simp add: good_outcome_def)
            show ?thesis using True d1 vx Some ct Inr e
              by (auto simp: add_vertex_to_set_fo_def Let_def s1_def[symmetric] s1'_def[symmetric]
                    good_outcome_def abort_def split: option.splits)
          qed
        qed
      qed
    qed
  qed
qed

lemma fo_branch_loop_good:
  assumes "\<And>i t. good_outcome (vs_size (B t)) (out t) (search i t)"
  shows "good_outcome (vs_size (B s)) (out s) (map_sum id snd (fo_branch_loop search g i js fl s))"
proof (induction js arbitrary: fl s)
  case Nil
  then show ?case by (simp add: good_outcome_def extends_below_refl)
next
  case (Cons j js)
  have a: "good_outcome (vs_size (B s)) (out s) (map_sum id snd (add_vertex_to_set_fo search g i j fl s))"
    by (rule add_vertex_to_set_fo_good[where search = search, OF assms])
  show ?case
  proof (cases "add_vertex_to_set_fo search g i j fl s")
    case (Inl e)
    then show ?thesis using a by (simp add: good_outcome_def split: prod.splits)
  next
    case (Inr x)
    obtain fl' s' where x: "x = (fl', s')" by (cases x)
    have e: "extends_below (vs_size (B s)) (out s) (vs_size (B s')) (out s')"
      using a Inr x by (simp add: good_outcome_def)
    show ?thesis using Inr x good_outcome_bind[OF e Cons.IH[where fl = fl' and s = s']] by simp
  qed
qed

lemma fold_unfix_B:
  "B (fold (\<lambda>j t. t\<lparr>fixed := (fixed t)(j := 0), total_fixed := total_fixed t - 1\<rparr>) xs s) = B s
   \<and> out (fold (\<lambda>j t. t\<lparr>fixed := (fixed t)(j := 0), total_fixed := total_fixed t - 1\<rparr>) xs s) = out s"
  by (induction xs arbitrary: s) simp_all

lemma fo_unfix_B [simp]: "B (fo_unfix fl s) = B s" "out (fo_unfix fl s) = out s"
  using fold_unfix_B[of "rev fl" s] by (simp_all add: fo_unfix_def)

lemma fo_body_good:
  assumes "\<And>i t. good_outcome (vs_size (B t)) (out t) (search i t)"
  shows "good_outcome (vs_size (B s)) (out s) (fo_body search False st g i s)"
proof -
  have r: "extends_below (vs_size (B s)) (out s) (vs_size (B s)) (out s)" by (rule extends_below_refl)
  have l: "good_outcome (vs_size (B s)) (out s)
            (case fo_branch_loop search g i' na [] s of Inl e \<Rightarrow> Inl e
             | Inr (fixed_list, s') \<Rightarrow> Inr (fo_unfix fixed_list s'))" for i' na
    using fo_branch_loop_good[where search = search and s = s and g = g and fl = "[]" and i = i' and js = na, OF assms]
    by (auto simp: good_outcome_def split: sum.splits)
  show ?thesis
    unfolding fo_body_def Let_def
    using r l record_solution_extends[of s st]
    by (auto simp: good_outcome_Inr good_outcome_abort split: option.splits)
qed

lemma FindDominatingSet_fo_good:
  "good_outcome (vs_size (B s)) (out s) (FindDominatingSet_fo k False st g chk i s)"
proof (induction k arbitrary: chk i s)
  case 0
  then show ?case by simp
next
  case (Suc k)
  have b: "good_outcome (vs_size (B s)) (out s)
             (fo_body (FindDominatingSet_fo k False st g c) False st g i (s\<lparr>depth_log := dl\<rparr>))" for c dl
    using fo_body_good[where search = "FindDominatingSet_fo k False st g c" and s = "s\<lparr>depth_log := dl\<rparr>"
        and st = st and g = g and i = i] Suc.IH
    by simp
  show ?case
    using b by (auto simp: good_outcome_Inr good_outcome_abort extends_below_refl split: option.splits)
qed

lemma lift_option_simps [simp]:
  "lift_option s None = abort Undefined s" "lift_option s (Some y) = Inr y"
  by (simp_all add: lift_option_def)

lemma dd_descend_B:
  assumes "do { (forced, s1) \<leftarrow> dd_remove_candidate g j s;
                d1 \<leftarrow> vs_add j (D s1);
                vx \<leftarrow> vertex_at g j;
                s2 \<leftarrow> fold_option (dd_dominate g) (neighbours vx) (s1\<lparr>D := d1\<rparr>);
                Some (forced, vx, s2) } = Some (f, vx', s2')"
  shows "B s2' = B s \<and> out s2' = out s"
  using assms
  apply (clarsimp simp: bind_eq_Some_conv)
  apply (drule dd_remove_candidate_B)
  apply (drule fold_dd_dominate_B)
  apply simp
  done

lemma dd_ascend_B:
  assumes "do { s4 \<leftarrow> fold_option (dd_undominate g) xs s3;
                d2 \<leftarrow> remove_pop j (D s4);
                Some (forced, fl, s4\<lparr>D := d2\<rparr>) } = Some (f, fl', s5)"
  shows "B s5 = B s3 \<and> out s5 = out s3"
  using assms
  apply (clarsimp simp: bind_eq_Some_conv)
  apply (drule fold_dd_undominate_B)
  apply simp
  done

lemma add_vertex_to_set_dd_good:
  assumes "\<And>t. good_outcome (vs_size (B t)) (out t) (search t)"
  shows "good_outcome (vs_size (B s)) (out s)
           (map_sum (\<lambda>e. e) (\<lambda>x. snd (snd x)) (add_vertex_to_set_dd search g j fl s))"
proof -
  let ?blk = "do { (forced, s1) \<leftarrow> dd_remove_candidate g j s;
                d1 \<leftarrow> vs_add j (D s1);
                vx \<leftarrow> vertex_at g j;
                s2 \<leftarrow> fold_option (dd_dominate g) (neighbours vx) (s1\<lparr>D := d1\<rparr>);
                Some (forced, vx, s2) }"
  show ?thesis
  proof (cases ?blk)
    case None
    then show ?thesis by (simp add: add_vertex_to_set_dd_def abort_def)
  next
    case (Some x)
    obtain forced vx s2 where x: "x = (forced, vx, s2)" by (cases x)
    have s2: "B s2 = B s" "out s2 = out s" using dd_descend_B[of g j s forced vx s2] Some x by simp_all
    have g: "good_outcome (vs_size (B s)) (out s) (search s2)"
      using assms[where t = s2] s2 by simp
    show ?thesis
    proof (cases "search s2")
      case (Inl e)
      then show ?thesis using Some x g
        by (simp add: add_vertex_to_set_dd_def good_outcome_def)
    next
      case (Inr s3)
      then have e: "extends_below (vs_size (B s)) (out s) (vs_size (B s3)) (out s3)"
        using g by (simp add: good_outcome_def)
      let ?blk2 = "do { s4 \<leftarrow> fold_option (dd_undominate g) (rev (neighbours vx)) s3;
                        d2 \<leftarrow> remove_pop j (D s4);
                        Some (forced, fl @ [j], s4\<lparr>D := d2\<rparr>) }"
      show ?thesis
      proof (cases ?blk2)
        case None
        then show ?thesis using Some x Inr e
          by (auto simp: add_vertex_to_set_dd_def good_outcome_def abort_def)
      next
        case Some2: (Some y)
        obtain f' fl' s5 where y: "y = (f', fl', s5)" by (cases y)
        have "B s5 = B s3 \<and> out s5 = out s3"
          using dd_ascend_B[of g "rev (neighbours vx)" s3 j forced "fl @ [j]" f' fl' s5] Some2 y by simp
        then show ?thesis using Some x Inr e Some2 y
          by (simp add: add_vertex_to_set_dd_def good_outcome_def)
      qed
    qed
  qed
qed

lemma dd_branch_loop_good:
  assumes "\<And>t. good_outcome (vs_size (B t)) (out t) (search t)"
  shows "good_outcome (vs_size (B s)) (out s) (map_sum (\<lambda>e. e) snd (dd_branch_loop search var st g js fl s))"
proof (induction js arbitrary: fl s)
  case Nil
  then show ?case by (simp add: good_outcome_def extends_below_refl)
next
  case (Cons j js)
  have a: "good_outcome (vs_size (B s)) (out s)
             (map_sum (\<lambda>e. e) (\<lambda>x. snd (snd x)) (add_vertex_to_set_dd search g j fl s))"
    by (rule add_vertex_to_set_dd_good[where search = search, OF assms])
  have cont: "good_outcome (vs_size (B s)) (out s)
      (map_sum (\<lambda>e. e) snd
        (case add_vertex_to_set_dd search g j fl s of
           Inl e \<Rightarrow> Inl e
         | Inr (force_stop, fixed_list', s') \<Rightarrow>
             if force_stop_on_trapped_vertex var \<and> force_stop then Inr (fixed_list', s')
             else dd_branch_loop search var st g js fixed_list' s'))"
  proof (cases "add_vertex_to_set_dd search g j fl s")
    case (Inl e)
    then show ?thesis using a by (simp add: good_outcome_def split: prod.splits)
  next
    case (Inr x)
    obtain f fl' s' where x: "x = (f, fl', s')" by (cases x)
    have e: "extends_below (vs_size (B s)) (out s) (vs_size (B s')) (out s')"
      using a Inr x by (simp add: good_outcome_def)
    have ih: "good_outcome (vs_size (B s)) (out s)
                (map_sum (\<lambda>e. e) snd (dd_branch_loop search var st g js fl' s'))"
      by (rule good_outcome_bind[OF e Cons.IH[where fl = fl' and s = s']])
    show ?thesis
      using Inr x e ih by (simp add: good_outcome_Inr)
  qed
  show ?case
    using cont
    by (auto simp: good_outcome_Inr extends_below_refl lift_option_def abort_def split: option.splits)
qed

lemma dd_restore_B: "dd_restore g fl s = Some s' \<Longrightarrow> B s' = B s \<and> out s' = out s"
  using fold_option_preserves[where f = "dd_add_candidate g" and h = "\<lambda>s. (B s, out s)" and xs = fl and s = s and s' = s']
  by (auto simp: dd_restore_def restore_upwards_fold dest: dd_add_candidate_B)

lemma dd_body_good:
  assumes "\<And>t. good_outcome (vs_size (B t)) (out t) (search t)"
  shows "generate_all var = False \<Longrightarrow> good_outcome (vs_size (B s)) (out s) (dd_body search var st g s)"
proof -
  assume gen: "generate_all var = False"
  have l: "good_outcome (vs_size (B s)) (out s)
            (case dd_branch_loop search var st g na [] s of Inl e \<Rightarrow> Inl e
             | Inr (fixed_list, s') \<Rightarrow> lift_option s' (dd_restore g fixed_list s'))" for na
  proof (cases "dd_branch_loop search var st g na [] s")
    case (Inl e)
    then show ?thesis
      using dd_branch_loop_good[where search = search and s = s and g = g and fl = "[]" and js = na
          and var = var and st = st, OF assms]
      by (simp add: good_outcome_def)
  next
    case (Inr x)
    obtain fl' s' where x: "x = (fl', s')" by (cases x)
    have e: "extends_below (vs_size (B s)) (out s) (vs_size (B s')) (out s')"
      using dd_branch_loop_good[where search = search and s = s and g = g and fl = "[]" and js = na
          and var = var and st = st, OF assms] Inr x
      by (simp add: good_outcome_def)
    show ?thesis
    proof (cases "dd_restore g fl' s'")
      case None
      then show ?thesis using Inr x e by (simp add: good_outcome_abort)
    next
      case (Some s'')
      then show ?thesis using Inr x e dd_restore_B[OF Some] by (simp add: good_outcome_def)
    qed
  qed
  show ?thesis
    unfolding dd_body_def Let_def
    using l record_solution_extends[of s st] gen
    by (auto simp: good_outcome_Inr extends_below_refl lift_option_def abort_def split: option.splits)
qed

lemma FindDominatingSet_dd_good:
  "generate_all var = False \<Longrightarrow>
   good_outcome (vs_size (B s)) (out s) (FindDominatingSet_dd k var st g chk s)"
proof (induction k arbitrary: chk s)
  case 0
  then show ?case by simp
next
  case (Suc k)
  have b: "good_outcome (vs_size (B s)) (out s)
             (dd_body (FindDominatingSet_dd k var st g c) var st g (s\<lparr>depth_log := dl\<rparr>))" for c dl
    using dd_body_good[where search = "FindDominatingSet_dd k var st g c" and s = "s\<lparr>depth_log := dl\<rparr>"
        and st = st and g = g and var = var] Suc
    by simp
  show ?case
    using b by (auto simp: good_outcome_Inr extends_below_refl split: option.splits)
qed

lemma mdd_descend_B:
  assumes "do { (forced, s1) \<leftarrow> mdd_remove_candidate g j s;
                d1 \<leftarrow> vs_add j (D s1);
                vx \<leftarrow> vertex_at g j;
                s2 \<leftarrow> fold_option (mdd_dominate g) (neighbours vx) (s1\<lparr>D := d1\<rparr>);
                ms \<leftarrow> add_dominator (env_of g s2) j (mdd_stack s2);
                Some (forced, vx, s2\<lparr>mdd_stack := ms\<rparr>) } = Some (f, vx', s2')"
  shows "B s2' = B s \<and> out s2' = out s"
  using assms
  apply (clarsimp simp: bind_eq_Some_conv)
  apply (drule mdd_remove_candidate_B)
  apply (drule fold_mdd_dominate_B)
  apply simp
  done

lemma mdd_ascend_B:
  assumes "do { ms \<leftarrow> remove_dominator j (mdd_stack s3);
                s4 \<leftarrow> fold_option (mdd_undominate g) xs (s3\<lparr>mdd_stack := ms\<rparr>);
                d2 \<leftarrow> remove_pop j (D s4);
                ms' \<leftarrow> exclude_dominator (env_of g (s4\<lparr>D := d2\<rparr>)) j (mdd_stack s4);
                Some (forced, fl, s4\<lparr>D := d2, mdd_stack := ms'\<rparr>) } = Some (f, fl', s5)"
  shows "B s5 = B s3 \<and> out s5 = out s3"
  using assms
  apply (clarsimp simp: bind_eq_Some_conv)
  apply (drule fold_mdd_undominate_B)
  apply simp
  done

lemma add_vertex_to_set_mdd_good:
  assumes "\<And>t. good_outcome (vs_size (B t)) (out t) (map_sum (\<lambda>e. e) snd (search t))"
  shows "good_outcome (vs_size (B s)) (out s)
           (map_sum (\<lambda>e. e) (\<lambda>x. snd (snd x)) (add_vertex_to_set_mdd search g j fl s))"
proof -
  let ?blk = "do { (forced, s1) \<leftarrow> mdd_remove_candidate g j s;
                d1 \<leftarrow> vs_add j (D s1);
                vx \<leftarrow> vertex_at g j;
                s2 \<leftarrow> fold_option (mdd_dominate g) (neighbours vx) (s1\<lparr>D := d1\<rparr>);
                ms \<leftarrow> add_dominator (env_of g s2) j (mdd_stack s2);
                Some (forced, vx, s2\<lparr>mdd_stack := ms\<rparr>) }"
  show ?thesis
  proof (cases ?blk)
    case None
    then show ?thesis by (simp add: add_vertex_to_set_mdd_def abort_def)
  next
    case (Some x)
    obtain forced vx s2 where x: "x = (forced, vx, s2)" by (cases x)
    have s2: "B s2 = B s" "out s2 = out s" using mdd_descend_B[of g j s forced vx s2] Some x by simp_all
    have g: "good_outcome (vs_size (B s)) (out s) (map_sum (\<lambda>e. e) snd (search s2))"
      using assms[where t = s2] s2 by simp
    show ?thesis
    proof (cases "search s2")
      case (Inl e)
      then show ?thesis using Some x g
        by (simp add: add_vertex_to_set_mdd_def good_outcome_def)
    next
      case (Inr cs)
      obtain code s3 where cs: "cs = (code, s3)" by (cases cs)
      have e: "extends_below (vs_size (B s)) (out s) (vs_size (B s3)) (out s3)"
        using g Inr cs by (simp add: good_outcome_def)
      let ?blk2 = "do { ms \<leftarrow> remove_dominator j (mdd_stack s3);
                s4 \<leftarrow> fold_option (mdd_undominate g) (rev (neighbours vx)) (s3\<lparr>mdd_stack := ms\<rparr>);
                d2 \<leftarrow> remove_pop j (D s4);
                ms' \<leftarrow> exclude_dominator (env_of g (s4\<lparr>D := d2\<rparr>)) j (mdd_stack s4);
                Some (if code = 0 then True else forced, fl @ [j], s4\<lparr>D := d2, mdd_stack := ms'\<rparr>) }"
      show ?thesis
      proof (cases ?blk2)
        case None
        then show ?thesis using Some x Inr cs e
          by (auto simp: add_vertex_to_set_mdd_def good_outcome_def abort_def)
      next
        case Some2: (Some y)
        obtain f' fl' s5 where y: "y = (f', fl', s5)" by (cases y)
        have "B s5 = B s3 \<and> out s5 = out s3"
          using mdd_ascend_B[of j s3 g "rev (neighbours vx)" "if code = 0 then True else forced" "fl @ [j]" f' fl' s5]
            Some2 y by simp
        then show ?thesis using Some x Inr cs e Some2 y
          by (simp add: add_vertex_to_set_mdd_def good_outcome_def)
      qed
    qed
  qed
qed

lemma mdd_branch_loop_good:
  assumes "\<And>t. good_outcome (vs_size (B t)) (out t) (map_sum (\<lambda>e. e) snd (search t))"
  shows "good_outcome (vs_size (B s)) (out s) (map_sum (\<lambda>e. e) snd (mdd_branch_loop search var st g js fl s))"
proof (induction js arbitrary: fl s)
  case Nil
  then show ?case by (simp add: good_outcome_def extends_below_refl)
next
  case (Cons j js)
  have a: "good_outcome (vs_size (B s)) (out s)
             (map_sum (\<lambda>e. e) (\<lambda>x. snd (snd x)) (add_vertex_to_set_mdd search g j fl s))"
    by (rule add_vertex_to_set_mdd_good[where search = search, OF assms])
  show ?case
  proof (cases "add_vertex_to_set_mdd search g j fl s")
    case (Inl e)
    then show ?thesis using a by (simp add: good_outcome_def split: prod.splits)
  next
    case (Inr x)
    obtain f fl' s' where x: "x = (f, fl', s')" by (cases x)
    have e: "extends_below (vs_size (B s)) (out s) (vs_size (B s')) (out s')"
      using a Inr x by (simp add: good_outcome_def)
    have ih: "good_outcome (vs_size (B s)) (out s)
                (map_sum (\<lambda>e. e) snd (mdd_branch_loop search var st g js fl' s'))"
      by (rule good_outcome_bind[OF e Cons.IH[where fl = fl' and s = s']])
    have ab: "good_outcome (vs_size (B s)) (out s) (Inl (Undefined, out s'))"
      using good_outcome_abort[OF e, of Undefined] by (simp add: abort_def)
    show ?thesis
      using Inr x e ih ab
      by (auto simp: good_outcome_Inr lift_option_def abort_def split: option.splits)
  qed
qed

lemma mdd_restore_one_B: "mdd_restore_one g v s = Some s' \<Longrightarrow> B s' = B s \<and> out s' = out s"
  apply (clarsimp simp: mdd_restore_one_def bind_eq_Some_conv)
  apply (drule mdd_add_candidate_B)
  apply simp
  done

lemma mdd_restore_B: "mdd_restore g fl s = Some s' \<Longrightarrow> B s' = B s \<and> out s' = out s"
  using fold_option_preserves[where f = "mdd_restore_one g" and h = "\<lambda>s. (B s, out s)"
      and xs = "rev fl" and s = s and s' = s']
  by (auto simp: mdd_restore_def restore_downwards_fold dest: mdd_restore_one_B)

lemma mdd_body_good:
  assumes "\<And>t. good_outcome (vs_size (B t)) (out t) (map_sum (\<lambda>e. e) snd (search t))"
  shows "generate_all var = False \<Longrightarrow>
         good_outcome (vs_size (B s)) (out s) (map_sum (\<lambda>e. e) snd (mdd_body search var st g s))"
proof -
  assume gen: "generate_all var = False"
  have l: "good_outcome (vs_size (B s)) (out s)
            (map_sum (\<lambda>e. e) snd
              (case mdd_branch_loop search var st g na [] s of Inl e \<Rightarrow> Inl e
               | Inr (fixed_list, s') \<Rightarrow>
                   (case mdd_restore g fixed_list s' of None \<Rightarrow> abort Undefined s'
                    | Some s'' \<Rightarrow> Inr (1, s''))))" for na
  proof (cases "mdd_branch_loop search var st g na [] s")
    case (Inl e)
    then show ?thesis
      using mdd_branch_loop_good[where search = search and s = s and g = g and fl = "[]" and js = na
          and var = var and st = st, OF assms]
      by (simp add: good_outcome_def)
  next
    case (Inr x)
    obtain fl' s' where x: "x = (fl', s')" by (cases x)
    have e: "extends_below (vs_size (B s)) (out s) (vs_size (B s')) (out s')"
      using mdd_branch_loop_good[where search = search and s = s and g = g and fl = "[]" and js = na
          and var = var and st = st, OF assms] Inr x
      by (simp add: good_outcome_def)
    show ?thesis
    proof (cases "mdd_restore g fl' s'")
      case None
      then show ?thesis using Inr x e by (auto simp: good_outcome_def abort_def)
    next
      case (Some s'')
      then show ?thesis using Inr x e mdd_restore_B[OF Some] by (simp add: good_outcome_def)
    qed
  qed
  show ?thesis
    unfolding mdd_body_def Let_def
    using l record_solution_extends[of s st] gen
    by (auto simp: good_outcome_Inr extends_below_refl abort_def split: option.splits)
qed

lemma FindDominatingSet_mdd_good:
  "generate_all var = False \<Longrightarrow>
   good_outcome (vs_size (B s)) (out s) (map_sum (\<lambda>e. e) snd (FindDominatingSet_mdd k var st g chk s))"
proof (induction k arbitrary: chk s)
  case 0
  then show ?case by simp
next
  case (Suc k)
  have b: "good_outcome (vs_size (B s)) (out s)
             (map_sum (\<lambda>e. e) snd
               (mdd_body (FindDominatingSet_mdd k var st g c) var st g (s\<lparr>depth_log := dl\<rparr>)))" for c dl
    using mdd_body_good[where search = "FindDominatingSet_mdd k var st g c" and s = "s\<lparr>depth_log := dl\<rparr>"
        and st = st and g = g and var = var] Suc
    by simp
  show ?case
    using b by (auto simp: good_outcome_Inr extends_below_refl split: option.splits)
qed

lemma fo_force_in_out: "fo_force_in g vs s = Some s' \<Longrightarrow> out s' = out s"
  by (induction g vs s rule: fo_force_in.induct) (auto split: Option.bind_splits)

lemma fo_force_out_out: "fo_force_out vs s = Some s' \<Longrightarrow> out s' = out s"
  by (induction vs s rule: fo_force_out.induct) (auto split: if_splits)

lemma fo_init_out: "fo_init gen st inst s = Some (g, s') \<Longrightarrow> out s' = []"
  apply (clarsimp simp: fo_init_def Let_def bind_eq_Some_conv)
  apply (drule fo_force_out_out)
  apply (drule fo_force_in_out)
  apply simp
  done

lemma dd_force_in_out: "dd_force_in g v s = Some s' \<Longrightarrow> out s' = out s"
  apply (clarsimp simp: dd_force_in_def bind_eq_Some_conv)
  apply (drule dd_remove_candidate_B)
  apply (drule fold_dd_dominate_B)
  apply simp
  done

lemma dd_init_out: "dd_init var st inst d0 b0 = Some (g, s') \<Longrightarrow> out s' = []"
proof -
  have 1: "fold_option (dd_force_in g) xs s = Some t \<Longrightarrow> out t = out s" for g xs s t
    by (rule fold_option_preserves[where h = out and f = "dd_force_in g"]) (auto dest: dd_force_in_out)
  have 2: "fold_option (\<lambda>v t. map_option snd (dd_remove_candidate g v t)) xs s = Some t \<Longrightarrow> out t = out s"
    for g xs s t
    by (rule fold_option_preserves[where h = out and f = "\<lambda>v t. map_option snd (dd_remove_candidate g v t)"])
       (auto dest: dd_remove_candidate_B)
  show "dd_init var st inst d0 b0 = Some (g, s') \<Longrightarrow> out s' = []"
    apply (clarsimp simp: dd_init_def Let_def bind_eq_Some_conv)
    apply (drule 2)
    apply (drule 1)
    apply simp
    done
qed

lemma mdd_force_in_out: "mdd_force_in g v s = Some s' \<Longrightarrow> out s' = out s"
  apply (clarsimp simp: mdd_force_in_def bind_eq_Some_conv)
  apply (drule mdd_remove_candidate_B)
  apply (drule fold_mdd_dominate_B)
  apply simp
  done

lemma mdd_force_out_out: "mdd_force_out g v s = Some s' \<Longrightarrow> out s' = out s"
  apply (clarsimp simp: mdd_force_out_def bind_eq_Some_conv)
  apply (drule mdd_remove_candidate_B)
  apply simp
  done

lemma mdd_init_out: "mdd_init var st inst d0 b0 u0 max_mdd0 = Some (g, s') \<Longrightarrow> out s' = []"
proof -
  have 1: "fold_option (mdd_force_in g) xs s = Some t \<Longrightarrow> out t = out s" for g xs s t
    by (rule fold_option_preserves[where h = out and f = "mdd_force_in g"]) (auto dest: mdd_force_in_out)
  have 2: "fold_option (mdd_force_out g) xs s = Some t \<Longrightarrow> out t = out s" for g xs s t
    by (rule fold_option_preserves[where h = out and f = "mdd_force_out g"]) (auto dest: mdd_force_out_out)
  show "mdd_init var st inst d0 b0 u0 max_mdd0 = Some (g, s') \<Longrightarrow> out s' = []"
    apply (clarsimp simp: mdd_init_def Let_def bind_eq_Some_conv)
    apply (drule 2)
    apply (drule 1)
    apply simp
    done
qed

lemma good_outcome_from_empty:
  "good_outcome b [] r \<Longrightarrow> decreasing_sizes (emitted r)"
  by (auto simp: good_outcome_def extends_below_def emitted_def split: sum.splits)

lemma solve_fo_decreasing: "decreasing_sizes (emitted (solve_fo fuel False st inst s))"
proof (cases "fo_init False st inst s")
  case None
  then show ?thesis by (simp add: solve_fo_def emitted_def decreasing_sizes_def)
next
  case (Some x)
  obtain g s0 where x: "x = (g, s0)" by (cases x)
  have "good_outcome (vs_size (B s0)) [] (FindDominatingSet_fo fuel False st g True 0 s0)"
    using FindDominatingSet_fo_good[of s0 fuel st g True 0] fo_init_out[of False st inst s g s0] Some x
    by simp
  then show ?thesis using Some x by (simp add: solve_fo_def good_outcome_from_empty)
qed

lemma solve_dd_decreasing:
  "\<not> generate_all var \<Longrightarrow> decreasing_sizes (emitted (solve_dd fuel var st inst d0 b0))"
proof (cases "dd_init var st inst d0 b0")
  case None
  then show ?thesis by (simp add: solve_dd_def emitted_def decreasing_sizes_def)
next
  case (Some x)
  assume gen: "\<not> generate_all var"
  obtain g s0 where x: "x = (g, s0)" by (cases x)
  have "good_outcome (vs_size (B s0)) [] (FindDominatingSet_dd fuel var st g True s0)"
    using FindDominatingSet_dd_good[of var s0 fuel st g True] dd_init_out[of var st inst d0 b0 g s0] Some x gen
    by simp
  then show ?thesis using Some x by (simp add: solve_dd_def good_outcome_from_empty)
qed

lemma solve_mdd_decreasing:
  "\<not> generate_all var \<Longrightarrow>
   decreasing_sizes (emitted (map_sum (\<lambda>e. e) snd (solve_mdd fuel var st inst d0 b0 u0 max_mdd0)))"
proof (cases "mdd_init var st inst d0 b0 u0 max_mdd0")
  case None
  then show ?thesis by (simp add: solve_mdd_def emitted_def decreasing_sizes_def)
next
  case (Some x)
  assume gen: "\<not> generate_all var"
  obtain g s0 where x: "x = (g, s0)" by (cases x)
  have "good_outcome (vs_size (B s0)) []
          (map_sum (\<lambda>e. e) snd (FindDominatingSet_mdd fuel var st g True s0))"
    using FindDominatingSet_mdd_good[of var s0 fuel st g True]
      mdd_init_out[of var st inst d0 b0 u0 max_mdd0 g s0] Some x gen
    by simp
  then show ?thesis using Some x by (simp add: solve_mdd_def good_outcome_from_empty)
qed

lemma fold_process_set: "sets \<noteq> [] \<Longrightarrow> fold output_best_process_set sets b = last sets"
  by (induction sets arbitrary: b) (auto simp: output_best_process_set_def)

lemma decreasing_last_least:
  "decreasing_sizes sets \<Longrightarrow> y \<in> set sets \<Longrightarrow> vs_size (last sets) \<le> vs_size y"
proof (induction sets)
  case Nil
  then show ?case by simp
next
  case (Cons x xs)
  show ?case
  proof (cases "xs = []")
    case True
    then show ?thesis using Cons.prems by simp
  next
    case False
    then have l: "last xs \<in> set xs" by simp
    have d: "decreasing_sizes xs" and b: "\<forall>z \<in> set xs. vs_size z < vs_size x"
      using Cons.prems(1) by (auto simp: decreasing_sizes_def)
    show ?thesis
    proof (cases "y = x")
      case True
      then show ?thesis using False l b by fastforce
    next
      case ny: False
      then have "y \<in> set xs" using Cons.prems(2) by simp
      then show ?thesis using Cons.IH[OF d] False by simp
    qed
  qed
qed

lemma decreasing_best:
  "decreasing_sizes sets \<Longrightarrow> best_is_last_and_least n b sets"
  unfolding best_is_last_and_least_def output_best_run_def
  by (auto simp: fold_process_set decreasing_last_least)

text \<open>
  C10: in optimisation mode the sets that one call of \<^verbatim>\<open>solve\<close> hands to
  \<^verbatim>\<open>process_set\<close> have strictly decreasing sizes, in the fixed-order, the DD and the MDD
  solver, whether the call returns or stops with an error; so the set that \<^verbatim>\<open>output_best\<close>
  retains, the last one, is a smallest emitted set.
\<close>

theorem C10_emitted_sizes_decrease:
  assumes "\<not> generate_all var"
  shows "decreasing_sizes (emitted (solve_fo fuel False st inst s))
       \<and> best_is_last_and_least n best0 (emitted (solve_fo fuel False st inst s))
       \<and> decreasing_sizes (emitted (solve_dd fuel var st inst d0 b0))
       \<and> best_is_last_and_least n best0 (emitted (solve_dd fuel var st inst d0 b0))
       \<and> decreasing_sizes (emitted (map_sum (\<lambda>e. e) snd (solve_mdd fuel var st inst d0 b0 u0 max_mdd0)))
       \<and> best_is_last_and_least n best0
            (emitted (map_sum (\<lambda>e. e) snd (solve_mdd fuel var st inst d0 b0 u0 max_mdd0)))"
  using solve_fo_decreasing[of fuel st inst s] solve_dd_decreasing[OF assms, of fuel st inst d0 b0]
    solve_mdd_decreasing[OF assms, of fuel st inst d0 b0 u0 max_mdd0]
  by (simp add: decreasing_best)

lemma two_edges_dd_run:
  "\<not> generate_all DD_minCD_asc"
  "map vs_list (emitted (solve_fo 5 False default_settings two_edges new_fo_solver)) = [[0, 2]]"
  "map vs_list (emitted (solve_fo 5 False default_settings P3 new_fo_solver)) = [[0, 2], [1]]"
  "map vs_list (emitted (solve_dd 10 DD_minCD_asc default_settings two_edges new_VertexSet new_VertexSet))
     = [[1, 3]]"
  "map vs_list (emitted (map_sum (\<lambda>e. e) snd
      (solve_mdd 10 DD_minCD_asc default_settings two_edges new_VertexSet new_VertexSet new_VertexSet 0)))
     = [[1, 3]]"
  "map_option vs_list (output_best_run 3
      (emitted (solve_fo 5 False default_settings P3 new_fo_solver)) new_VertexSet)
     = Some [1]"
  by code_simp+

theorem C10_emitted_sizes_decrease_witness:
  "\<not> generate_all DD_minCD_asc
   \<and> map vs_list (emitted (solve_fo 5 False default_settings P3 new_fo_solver)) = [[0, 2], [1]]
   \<and> map_option vs_list (output_best_run 3
        (emitted (solve_fo 5 False default_settings P3 new_fo_solver)) new_VertexSet) = Some [1]
   \<and> decreasing_sizes (emitted (solve_fo 5 False default_settings P3 new_fo_solver))
   \<and> best_is_last_and_least 3 new_VertexSet (emitted (solve_fo 5 False default_settings P3 new_fo_solver))
   \<and> decreasing_sizes (emitted (solve_dd 10 DD_minCD_asc default_settings P3 new_VertexSet new_VertexSet))
   \<and> decreasing_sizes (emitted (map_sum (\<lambda>e. e) snd
        (solve_mdd 10 DD_minCD_asc default_settings P3 new_VertexSet new_VertexSet new_VertexSet 0)))"
  using C10_emitted_sizes_decrease[OF two_edges_dd_run(1), where fuel = 5 and st = default_settings
      and inst = P3 and s = new_fo_solver and n = 3 and ?best0.0 = new_VertexSet]
    C10_emitted_sizes_decrease[OF two_edges_dd_run(1), where fuel = 10 and st = default_settings
      and inst = P3 and ?d0.0 = new_VertexSet and ?b0.0 = new_VertexSet and ?u0.0 = new_VertexSet
      and ?max_mdd0.0 = 0]
    two_edges_dd_run
  by simp

subsection \<open>Writing a graph and reading it back\<close>

lemma is_digit_digit_char: "d < 10 \<Longrightarrow> is_digit (digit_char d)"
  by (simp add: is_digit_def digit_char_def)

lemma digit_char_value: "d < 10 \<Longrightarrow> of_char (digit_char d) - 48 = d"
  by (simp add: digit_char_def)

lemma show_nat_digits: "c \<in> set (show_nat k) \<Longrightarrow> is_digit c"
proof (induction k arbitrary: c rule: show_nat.induct)
  case (1 k)
  show ?case
  proof (cases "k < 10")
    case True
    then show ?thesis using 1(2) by (subst (asm) show_nat.simps) (simp add: is_digit_digit_char)
  next
    case False
    then have "c \<in> set (show_nat (k div 10)) \<or> c = digit_char (k mod 10)"
      using 1(2) by (subst (asm) show_nat.simps) auto
    then show ?thesis using 1(1)[OF False] by (auto simp: is_digit_digit_char)
  qed
qed

lemma show_nat_nonempty: "show_nat k \<noteq> []"
  by (subst show_nat.simps) simp

lemma digits_value_snoc: "digits_value (ds @ [c]) = 10 * digits_value ds + (of_char c - 48)"
  by (simp add: digits_value_def)

lemma digits_value_show_nat: "digits_value (show_nat k) = k"
proof (induction k rule: show_nat.induct)
  case (1 k)
  show ?case
  proof (cases "k < 10")
    case True
    then show ?thesis by (subst show_nat.simps) (simp add: digits_value_def digit_char_value)
  next
    case False
    then show ?thesis using 1[OF False]
      by (subst show_nat.simps) (simp add: digits_value_snoc digit_char_value)
  qed
qed

lemma digit_not_space: "is_digit c \<Longrightarrow> \<not> is_space c"
  by (auto simp: is_digit_def is_space_def)

lemma digit_not_sign: "is_digit c \<Longrightarrow> c \<noteq> CHR ''-'' \<and> c \<noteq> CHR ''+''"
  by (auto simp: is_digit_def)

lemma takeWhile_digits:
  "\<not> is_digit c \<Longrightarrow> takeWhile is_digit (show_nat k @ c # rest) = show_nat k"
  by (simp add: takeWhile_append2 show_nat_digits)

lemma dropWhile_digits:
  "\<not> is_digit c \<Longrightarrow> dropWhile is_digit (show_nat k @ c # rest) = c # rest"
  by (simp add: dropWhile_append2 show_nat_digits)

lemma read_int_show_nat:
  assumes "\<not> is_digit c" "int k < 2 ^ 31"
  shows "read_int (show_nat k @ c # rest) = Some (int k, c # rest)"
proof -
  obtain d ds where s: "show_nat k = d # ds" using show_nat_nonempty[of k] by (cases "show_nat k") auto
  have d: "is_digit d" using show_nat_digits[of d k] s by simp
  have 1: "dropWhile is_space (show_nat k @ c # rest) = show_nat k @ c # rest"
    using s digit_not_space[OF d] by simp
  have 2: "takeWhile is_digit (d # ds @ c # rest) = d # ds"
    using takeWhile_digits[OF assms(1), of k rest] s by simp
  have 3: "dropWhile is_digit (d # ds @ c # rest) = c # rest"
    using dropWhile_digits[OF assms(1), of k rest] s by simp
  have 4: "digits_value (d # ds) = k" using digits_value_show_nat[of k] s by simp
  show ?thesis
    unfolding read_int_def 1
    using s digit_not_sign[OF d] 2 3 4 assms(2)
    by (simp add: Let_def)
qed

lemma read_int_skip: "list_all is_space ws \<Longrightarrow> read_int (ws @ f) = read_int f"
proof -
  assume "list_all is_space ws"
  then have "dropWhile is_space (ws @ f) = dropWhile is_space f"
    by (induction ws) auto
  then show ?thesis by (simp add: read_int_def)
qed

lemma read_int_token:
  assumes "list_all is_space ws" "\<not> is_digit c" "0 \<le> k" "k < 2 ^ 31"
  shows "read_int (ws @ show_int k @ c # rest) = Some (k, c # rest)"
  using read_int_skip[OF assms(1)] read_int_show_nat[OF assms(2), of "nat k" rest] assms(3,4)
  by (simp add: show_int_def)

lemma space_facts: "is_space CHR '' ''" "is_space (CHR 0x0A)" "\<not> is_digit CHR '' ''" "\<not> is_digit (CHR 0x0A)"
  by (simp_all add: is_space_def is_digit_def)

lemma read_neighbours_written:
  assumes "\<forall>u \<in> set us. 0 \<le> u \<and> u < MAX_DEGREE" "\<not> is_digit c"
  shows "read_neighbours (length us) i (concat (map (\<lambda>u. CHR '' '' # show_int u) us) @ c # rest) g
         = (True, g[nat i := (g ! nat i)\<lparr>neighbours := neighbours (g ! nat i) @ us\<rparr>], c # rest)"
  using assms(1)
proof (induction us arbitrary: g)
  case Nil
  then show ?case by simp
next
  case (Cons u us)
  have u: "0 \<le> u" "u < MAX_DEGREE" "u < 2 ^ 31" using Cons.prems by (auto simp: MAX_DEGREE_def)
  let ?tail = "concat (map (\<lambda>u. CHR '' '' # show_int u) us) @ c # rest"
  have nd: "\<not> is_digit (hd ?tail)" using assms(2) space_facts by (cases us) auto
  obtain c' r' where t: "?tail = c' # r'" by (cases ?tail) auto
  have r: "read_int (CHR '' '' # show_int u @ ?tail) = Some (u, ?tail)"
    using read_int_token[of "[CHR '' '']" c' u r'] u(1,3) nd t space_facts by simp
  let ?g = "g[nat i := (g ! nat i)\<lparr>neighbours := neighbours (g ! nat i) @ [u]\<rparr>]"
  have ih: "read_neighbours (length us) i ?tail ?g
    = (True, ?g[nat i := (?g ! nat i)\<lparr>neighbours := neighbours (?g ! nat i) @ us\<rparr>], c # rest)"
    using Cons.IH[of ?g] Cons.prems by simp
  have upd: "?g[nat i := (?g ! nat i)\<lparr>neighbours := neighbours (?g ! nat i) @ us\<rparr>]
             = g[nat i := (g ! nat i)\<lparr>neighbours := neighbours (g ! nat i) @ u # us\<rparr>]"
    by (cases "nat i < length g") (simp_all add: list_update_beyond)
  show ?case using r ih upd u by simp
qed

lemma spaces_before:
  "CHR '' '' # concat (map (\<lambda>u. show_int u @ '' '') us)
   = concat (map (\<lambda>u. CHR '' '' # show_int u) us) @ '' ''"
  by (induction us) simp_all

lemma write_vertex_alt:
  "write_vertex vx = show_int (vdeg vx) @ concat (map (\<lambda>u. CHR '' '' # show_int u) (neighbours vx))
                       @ CHR '' '' # [CHR 0x0A]"
  using spaces_before[of "neighbours vx"] by (simp add: write_vertex_def)

lemma upto_as_upt: "[0..int n - 1] = map int [0..<n]"
proof (induction n)
  case 0
  then show ?case by simp
next
  case (Suc n)
  have "[0..int (Suc n) - 1] = [0..int n - 1] @ [int n]"
    using upto_rec2[of 0 "int n"] by simp
  then show ?case using Suc by simp
qed

lemma read_vertices_written:
  assumes "\<forall>vx \<in> set vs. vdeg vx < MAX_DEGREE \<and> (\<forall>u \<in> set (neighbours vx). 0 \<le> u \<and> u < MAX_DEGREE)"
    and "list_all is_space ws"
    and "k + length vs = length g"
    and "\<forall>j. k \<le> j \<and> j < length g \<longrightarrow> neighbours (g ! j) = []"
  shows "\<exists>g' f'. read_vertices (map int [k..<k + length vs]) (ws @ concat (map write_vertex vs)) g
                    = (True, g', f')
                \<and> length g' = length g
                \<and> (\<forall>j < k. g' ! j = g ! j)
                \<and> (\<forall>j < length vs. neighbours (g' ! (k + j)) = neighbours (vs ! j))"
  using assms
proof (induction vs arbitrary: k g ws)
  case Nil
  then show ?case by simp
next
  case (Cons vx vs)
  let ?us = "neighbours vx"
  let ?restS = "concat (map write_vertex vs)"
  let ?T = "concat (map (\<lambda>u. CHR '' '' # show_int u) ?us) @ CHR '' '' # CHR 0x0A # ?restS"
  obtain T' where T: "?T = CHR '' '' # T'" by (cases ?us) auto
  have dg: "0 \<le> vdeg vx" "vdeg vx < MAX_DEGREE" "vdeg vx < 2 ^ 31" "nat (vdeg vx) = length ?us"
    using Cons.prems(1) by (auto simp: vdeg_def MAX_DEGREE_def)
  have stream: "ws @ concat (map write_vertex (vx # vs)) = ws @ show_int (vdeg vx) @ CHR '' '' # T'"
    using T by (simp add: write_vertex_alt)
  have r1: "read_int (ws @ concat (map write_vertex (vx # vs))) = Some (vdeg vx, ?T)"
    unfolding stream using read_int_token[OF Cons.prems(2) space_facts(3) dg(1,3), of T'] T by simp
  let ?g1 = "g[nat (int k) := (g ! nat (int k))\<lparr>neighbours := neighbours (g ! nat (int k)) @ ?us\<rparr>]"
  have us: "\<forall>u \<in> set ?us. 0 \<le> u \<and> u < MAX_DEGREE" using Cons.prems(1) by simp
  have r2: "read_neighbours (length ?us) (int k) ?T g = (True, ?g1, CHR '' '' # CHR 0x0A # ?restS)"
    using read_neighbours_written[OF us space_facts(3), of "int k" "CHR 0x0A # ?restS" g] by simp
  have klt: "k < length g" using Cons.prems(3) by simp
  have g1k: "neighbours (?g1 ! k) = ?us" using klt Cons.prems(4) by simp
  have ws': "list_all is_space [CHR '' '', CHR 0x0A]" using space_facts by simp
  have p3: "Suc k + length vs = length ?g1" using Cons.prems(3) by simp
  have p4: "\<forall>j. Suc k \<le> j \<and> j < length ?g1 \<longrightarrow> neighbours (?g1 ! j) = []"
    using Cons.prems(4) by (auto simp: nth_list_update)
  have p1: "\<forall>vx \<in> set vs. vdeg vx < MAX_DEGREE \<and> (\<forall>u \<in> set (neighbours vx). 0 \<le> u \<and> u < MAX_DEGREE)"
    using Cons.prems(1) by simp
  from Cons.IH[OF p1 ws' p3 p4] obtain g' f' where
    ih: "read_vertices (map int [Suc k..<Suc k + length vs]) ([CHR '' '', CHR 0x0A] @ ?restS) ?g1 = (True, g', f')"
    and len: "length g' = length ?g1"
    and low: "\<forall>j < Suc k. g' ! j = ?g1 ! j"
    and high: "\<forall>j < length vs. neighbours (g' ! (Suc k + j)) = neighbours (vs ! j)"
    by blast
  have idx: "map int [k..<k + length (vx # vs)] = int k # map int [Suc k..<Suc k + length vs]"
    by (subst upt_rec) simp
  have run: "read_vertices (map int [k..<k + length (vx # vs)]) (ws @ concat (map write_vertex (vx # vs))) g
             = (True, g', f')"
    unfolding idx using r1 r2 ih dg by simp
  have l1: "length g' = length g" using len by simp
  have l2: "\<forall>j < k. g' ! j = g ! j" using low by (auto simp: nth_list_update)
  have l3: "\<forall>j < length (vx # vs). neighbours (g' ! (k + j)) = neighbours ((vx # vs) ! j)"
  proof (intro allI impI)
    fix j assume j: "j < length (vx # vs)"
    show "neighbours (g' ! (k + j)) = neighbours ((vx # vs) ! j)"
    proof (cases j)
      case 0
      then show ?thesis using low g1k by simp
    next
      case (Suc j')
      then show ?thesis using high j by simp
    qed
  qed
  show ?case using run l1 l2 l3 by blast
qed

text \<open>
  C8: for a graph within the limits of the text format, \<^verbatim>\<open>read_graph\<close> applied to the
  output of \<^verbatim>\<open>write_graph\<close> returns true and yields a graph with the same number of
  vertices and the same neighbour lists, in the same order.
\<close>

theorem C8_write_read_round_trip:
  assumes "text_format_ok g"
  shows "\<exists>g' f'. read_graph (write_graph g) g0 = Inr (True, g', f')
           \<and> Graph_n g' = Graph_n g \<and> map neighbours g' = map neighbours g"
proof -
  let ?n = "Graph_n g"
  have n: "0 \<le> ?n" "?n < MAX_VERTS" "?n < 2 ^ 31"
    using assms Graph_n_nonneg[of g] by (auto simp: text_format_ok_def MAX_VERTS_def)
  have r0: "read_int (write_graph g) = Some (?n, CHR 0x0A # concat (map write_vertex g))"
    using read_int_token[of "[]" "CHR 0x0A" ?n "concat (map write_vertex g)"] n space_facts
    by (simp add: write_graph_def)
  let ?g0 = "map new_vertex [0..?n - 1]"
  have nn: "\<not> Graph_n g < 0" using Graph_n_nonneg[of g] by linarith
  have reset: "Graph_reset ?n = Inr ?g0" using n(2) nn by (simp add: Graph_reset_def)
  have len0: "length ?g0 = length g" by (simp add: Graph_n_def)
  have idx: "[0..?n - 1] = map int [0..<0 + length g]"
    using upto_as_upt[of "length g"] by (simp add: Graph_n_def)
  have p1: "\<forall>vx \<in> set g. vdeg vx < MAX_DEGREE \<and> (\<forall>u \<in> set (neighbours vx). 0 \<le> u \<and> u < MAX_DEGREE)"
    using assms by (simp add: text_format_ok_def)
  have p4: "\<forall>j. 0 \<le> j \<and> j < length ?g0 \<longrightarrow> neighbours (?g0 ! j) = []"
    by (simp add: new_vertex_def)
  have p3: "0 + length g = length ?g0" using len0 by simp
  have ws: "list_all is_space [CHR 0x0A]" using space_facts by simp
  from read_vertices_written[OF p1 ws p3 p4] obtain g' f' where
    run: "read_vertices (map int [0..<0 + length g]) ([CHR 0x0A] @ concat (map write_vertex g)) ?g0 = (True, g', f')"
    and len: "length g' = length ?g0"
    and nb: "\<forall>j < length g. neighbours (g' ! (0 + j)) = neighbours (g ! j)"
    by blast
  have "read_graph (write_graph g) g0 = Inr (True, g', f')"
    using r0 n(2) nn reset run idx by (simp add: read_graph_def del: Graph_n_nonneg)
  moreover have "Graph_n g' = Graph_n g" using len len0 by (simp add: Graph_n_def)
  moreover have "map neighbours g' = map neighbours g"
    using nb len len0 by (intro nth_equalityI) simp_all
  ultimately show ?thesis by blast
qed

lemma P3_text_format: "text_format_ok (G P3)"
  by code_simp

lemma P3_round_trip:
  "write_graph (G P3) = ''3'' @ [CHR 0x0A] @ ''1 1 '' @ [CHR 0x0A] @ ''2 0 2 '' @ [CHR 0x0A] @ ''1 1 '' @ [CHR 0x0A]"
  "map_sum id (\<lambda>(ok, g', f'). (ok, map neighbours g')) (read_graph (write_graph (G P3)) []) = Inr (True, [[1], [0, 2], [1]])"
  by code_simp+

theorem C8_write_read_round_trip_witness:
  "text_format_ok (G P3)
   \<and> map_sum id (\<lambda>(ok, g', f'). (ok, map neighbours g')) (read_graph (write_graph (G P3)) [])
       = Inr (True, [[1], [0, 2], [1]])
   \<and> (\<exists>g' f'. read_graph (write_graph (G P3)) [] = Inr (True, g', f')
           \<and> Graph_n g' = Graph_n (G P3) \<and> map neighbours g' = map neighbours (G P3))"
  using C8_write_read_round_trip[OF P3_text_format, of "[]"] P3_text_format P3_round_trip(2)
  by simp

subsection \<open>Undoing the journal of the MDD stack\<close>

lemma row_entries_pop:
  assumes "0 < row_size (stack m r)"
  shows "row_entries m r = entries (stack m r) (row_size (stack m r) - 1)
           # row_entries (m\<lparr>stack := (stack m)(r := (stack m r)\<lparr>row_size := row_size (stack m r) - 1\<rparr>)\<rparr>) r"
proof -
  obtain k where k: "nat (row_size (stack m r)) = Suc k"
    using assms by (metis Suc_pred zero_less_nat_eq)
  then have k': "row_size (stack m r) = int k + 1" using assms by linarith
  have "nat (int k + 1) = Suc k" by simp
  then show ?thesis by (simp add: row_entries_def k')
qed

lemma row_entries_frame:
  "stack m' r = stack m r \<Longrightarrow> row_entries m' r = row_entries m r"
  by (simp add: row_entries_def)

lemma unwind_row_undo:
  "undo_entries g es (h, mdd_values m, mdd_counts m) = Some (h', vals', cnts')
   \<Longrightarrow> row_entries m r = es \<Longrightarrow> 0 \<le> row_size (stack m r) \<Longrightarrow> row_size (stack m r) \<le> 1024
   \<Longrightarrow> \<exists>m'. unwind_row g r h m = Some (h', m') \<and> mdd_values m' = vals' \<and> mdd_counts m' = cnts'
            \<and> max_mdd m' = max_mdd m \<and> stack_size m' = stack_size m
            \<and> (\<forall>i. i \<noteq> r \<longrightarrow> stack m' i = stack m i)"
proof (induction es arbitrary: m h)
  case Nil
  then have "row_size (stack m r) = 0" by (simp add: row_entries_def)
  with Nil show ?case by (subst unwind_row.simps) simp
next
  case (Cons e es)
  from Cons.prems(2) have pos: "0 < row_size (stack m r)"
    by (auto simp: row_entries_def intro: ccontr)
  let ?m1 = "m\<lparr>stack := (stack m)(r := (stack m r)\<lparr>row_size := row_size (stack m r) - 1\<rparr>)\<rparr>"
  from row_entries_pop[OF pos] Cons.prems(2)
  have e: "e = entries (stack m r) (row_size (stack m r) - 1)" and es: "row_entries ?m1 r = es"
    by simp_all
  have ia: "in_array (row_size (stack m r) - 1)"
    using pos Cons.prems(4) by (simp add: in_array_def MAX_VERTS_def)
  let ?u = "vertex e" and ?new = "old_mdd e" and ?old = "mdd_values m (vertex e)"
  from Cons.prems(1) have c1: "in_array ?u" and c2: "(g \<and> ?old = INVALID_MDD) \<or> in_array ?old"
    and c3: "in_array ?new"
    by (auto simp: Let_def split: if_splits)
  let ?c1 = "if g \<and> ?old = INVALID_MDD then mdd_counts m else (mdd_counts m)(?old := mdd_counts m ?old - 1)"
  let ?m3 = "?m1\<lparr>mdd_values := (mdd_values m)(?u := ?new), mdd_counts := ?c1(?new := ?c1 ?new + 1)\<rparr>"
  from Cons.prems(1) c1 c2 c3
  have u: "undo_entries g es (max h ?new, mdd_values ?m3, mdd_counts ?m3) = Some (h', vals', cnts')"
    by (auto simp: Let_def split: if_splits)
  have es3: "row_entries ?m3 r = es" using es by (simp add: row_entries_def)
  have "\<exists>m'. unwind_row g r (max h ?new) ?m3 = Some (h', m') \<and> mdd_values m' = vals' \<and> mdd_counts m' = cnts'
            \<and> max_mdd m' = max_mdd ?m3 \<and> stack_size m' = stack_size ?m3
            \<and> (\<forall>i. i \<noteq> r \<longrightarrow> stack m' i = stack ?m3 i)"
    using Cons.prems(3,4) pos by (intro Cons.IH[OF u es3]) simp_all
  moreover have "unwind_row g r h m = unwind_row g r (max h ?new) ?m3"
    using pos ia c1 c2 c3 e by (subst unwind_row.simps) (auto simp: Let_def)
  ultimately show ?case by simp
qed

lemma invalid_not_in_array: "\<not> in_array INVALID_MDD"
  by (simp add: in_array_def INVALID_MDD_def MAX_VERTS_def)

lemma new_entry_row:
  assumes "new_entry r u old m = Some m1" and "0 \<le> row_size (stack m r)"
  shows "row_entries m1 r = \<lparr>vertex = u, old_mdd = old\<rparr> # row_entries m r"
    and "row_size (stack m1 r) = row_size (stack m r) + 1"
    and "row_size (stack m r) < 1024"
    and "mdd_values m1 = mdd_values m" and "mdd_counts m1 = mdd_counts m"
    and "max_mdd m1 = max_mdd m" and "stack_size m1 = stack_size m"
    and "\<forall>i. i \<noteq> r \<longrightarrow> stack m1 i = stack m i"
proof -
  let ?k = "nat (row_size (stack m r))"
  have k: "row_size (stack m r) = int ?k" using assms(2) by simp
  have m1: "m1 = m\<lparr>stack := (stack m)(r := (stack m r)\<lparr>entries := (entries (stack m r))(row_size (stack m r) := \<lparr>vertex = u, old_mdd = old\<rparr>),
                                                 row_size := row_size (stack m r) + 1\<rparr>)\<rparr>"
    and ia: "in_array (row_size (stack m r))"
    using assms(1) by (auto simp: new_entry_def Let_def split: if_splits)
  have "nat (row_size (stack m r) + 1) = Suc ?k" using assms(2) by simp
  then show "row_entries m1 r = \<lparr>vertex = u, old_mdd = old\<rparr> # row_entries m r"
    using assms(2) by (simp add: row_entries_def m1)
  show "row_size (stack m1 r) = row_size (stack m r) + 1" by (simp add: m1)
  show "row_size (stack m r) < 1024" using ia by (simp add: in_array_def MAX_VERTS_def)
  show "mdd_values m1 = mdd_values m" "mdd_counts m1 = mdd_counts m"
    "max_mdd m1 = max_mdd m" "stack_size m1 = stack_size m"
    "\<forall>i. i \<noteq> r \<longrightarrow> stack m1 i = stack m i"
    by (simp_all add: m1)
qed

lemma refresh_mdd_inv:
  assumes inv: "journal_inv g env True r b m0 m"
    and step: "refresh_mdd env r u m = Some m'"
    and bound: "in_array (mdd_values m0 u) \<longrightarrow> mdd_values m0 u \<le> b"
  shows "journal_inv g env True r b m0 m'"
proof -
  obtain new where new: "recompute_mdd env u = Some new" and iu: "in_array u"
    using step by (auto simp: refresh_mdd_def get_mdd_def bind_eq_Some_conv split: if_splits)
  let ?old = "mdd_values m u"
  show ?thesis
  proof (cases "?old = new")
    case True
    then have "m' = m" using step new iu by (simp add: refresh_mdd_def get_mdd_def)
    then show ?thesis using inv by simp
  next
    case False
    then obtain m1 where ne: "new_entry r u ?old m = Some m1" and io: "in_array ?old" and inew: "in_array new"
      and m': "m' = m1\<lparr>mdd_values := (mdd_values m1)(u := new),
                       mdd_counts := ((mdd_counts m1)(?old := mdd_counts m1 ?old - 1))
                                       (new := ((mdd_counts m1)(?old := mdd_counts m1 ?old - 1)) new + 1)\<rparr>"
      using step new iu by (auto simp: refresh_mdd_def get_mdd_def bind_eq_Some_conv split: if_splits)
    from inv have sz: "0 \<le> row_size (stack m r)" by (simp add: journal_inv_def)
    note ner = new_entry_row[OF ne sz]
    let ?e = "\<lparr>vertex = u, old_mdd = ?old\<rparr>"
    let ?es = "row_entries m r"
    have re: "row_entries m' r = ?e # ?es" using ner(1) by (simp add: m' row_entries_def)
    have new_valid: "new \<noteq> INVALID_MDD" using inew invalid_not_in_array by auto
    have old_valid: "?old \<noteq> INVALID_MDD" using io invalid_not_in_array by auto
    have vals: "(mdd_values m')(u := ?old) = mdd_values m" by (simp add: m' ner)
    have cur: "mdd_values m' u = new" by (simp add: m')
    let ?c1 = "(mdd_counts m')(new := mdd_counts m' new - 1)"
    have cnts: "?c1(?old := ?c1 ?old + 1) = mdd_counts m"
      using False by (auto simp: m' ner fun_eq_iff)
    have undo: "undo_entries g (row_entries m' r) (h, mdd_values m', mdd_counts m')
                = Some (fold max (map old_mdd (row_entries m' r)) h, mdd_values m0, mdd_counts m0)" for h
    proof -
      have "undo_entries g (?e # ?es) (h, mdd_values m', mdd_counts m')
            = undo_entries g ?es (max h ?old, mdd_values m, mdd_counts m)"
        using iu io inew new_valid cur vals cnts by (simp add: Let_def)
      also have "\<dots> = Some (fold max (map old_mdd ?es) (max h ?old), mdd_values m0, mdd_counts m0)"
        using inv by (simp add: journal_inv_def)
      finally show ?thesis by (simp add: re max.commute)
    qed
    have old0: "?old = mdd_values m0 u"
      using inv old_valid False new by (auto simp: journal_inv_def)
    then have ob: "?old \<le> b" using bound io by simp
    have J: "\<exists>e \<in> set (row_entries m' r). old_mdd e = d" if d: "mdd_counts m' d < mdd_counts m0 d" for d
    proof (cases "d = ?old")
      case True then show ?thesis by (simp add: re)
    next
      case F: False
      then have "mdd_counts m d \<le> mdd_counts m' d" by (simp add: m' ner)
      then have "mdd_counts m d < mdd_counts m0 d" using d by simp
      then show ?thesis using inv by (auto simp: journal_inv_def re)
    qed
    have K: "mdd_values m' x = mdd_values m0 x \<or> mdd_values m' x = INVALID_MDD
             \<or> (True \<and> recompute_mdd env x = Some (mdd_values m' x))" for x
    proof (cases "x = u")
      case True then show ?thesis using new cur by simp
    next
      case F: False
      then have "mdd_values m' x = mdd_values m x" by (simp add: m' ner)
      then show ?thesis using inv by (auto simp: journal_inv_def)
    qed
    have frame: "0 \<le> row_size (stack m' r)" "row_size (stack m' r) \<le> 1024"
      "max_mdd m' = max_mdd m0" "stack_size m' = stack_size m0"
      "\<forall>i. i \<noteq> r \<longrightarrow> stack m' i = stack m0 i"
      using inv ner by (simp_all add: journal_inv_def m')
    have B: "\<forall>e \<in> set (row_entries m' r). old_mdd e \<le> b"
      using inv ob by (simp add: re journal_inv_def)
    show ?thesis
      unfolding journal_inv_def using frame undo B J K by blast
  qed
qed

lemma clear_neighbour_inv:
  assumes inv: "journal_inv True env False r b m0 m"
    and step: "clear_neighbour r u m = Some m'"
    and bound: "in_array (mdd_values m0 u) \<longrightarrow> mdd_values m0 u \<le> b"
  shows "journal_inv True env False r b m0 m'"
proof -
  have iu: "in_array u"
    using step by (auto simp: clear_neighbour_def get_mdd_def bind_eq_Some_conv split: if_splits)
  let ?old = "mdd_values m u"
  show ?thesis
  proof (cases "?old = INVALID_MDD")
    case True
    then have "m' = m" using step iu by (simp add: clear_neighbour_def get_mdd_def)
    then show ?thesis using inv by simp
  next
    case False
    then obtain m1 where ne: "new_entry r u ?old m = Some m1" and io: "in_array ?old"
      and m': "m' = m1\<lparr>mdd_values := (mdd_values m1)(u := INVALID_MDD),
                       mdd_counts := (mdd_counts m1)(?old := mdd_counts m1 ?old - 1)\<rparr>"
      using step iu by (auto simp: clear_neighbour_def get_mdd_def bind_eq_Some_conv split: if_splits)
    from inv have sz: "0 \<le> row_size (stack m r)" by (simp add: journal_inv_def)
    note ner = new_entry_row[OF ne sz]
    let ?e = "\<lparr>vertex = u, old_mdd = ?old\<rparr>"
    let ?es = "row_entries m r"
    have re: "row_entries m' r = ?e # ?es" using ner(1) by (simp add: m' row_entries_def)
    have vals: "(mdd_values m')(u := ?old) = mdd_values m" by (simp add: m' ner)
    have cur: "mdd_values m' u = INVALID_MDD" by (simp add: m')
    have cnts: "(mdd_counts m')(?old := mdd_counts m' ?old + 1) = mdd_counts m"
      by (auto simp: m' ner fun_eq_iff)
    have undo: "undo_entries True (row_entries m' r) (h, mdd_values m', mdd_counts m')
                = Some (fold max (map old_mdd (row_entries m' r)) h, mdd_values m0, mdd_counts m0)" for h
    proof -
      have "undo_entries True (?e # ?es) (h, mdd_values m', mdd_counts m')
            = undo_entries True ?es (max h ?old, mdd_values m, mdd_counts m)"
        using iu io cur vals cnts by (simp add: Let_def)
      also have "\<dots> = Some (fold max (map old_mdd ?es) (max h ?old), mdd_values m0, mdd_counts m0)"
        using inv by (simp add: journal_inv_def)
      finally show ?thesis by (simp add: re max.commute)
    qed
    have old0: "?old = mdd_values m0 u"
      using inv False by (auto simp: journal_inv_def)
    then have ob: "?old \<le> b" using bound io by simp
    have J: "\<exists>e \<in> set (row_entries m' r). old_mdd e = d" if d: "mdd_counts m' d < mdd_counts m0 d" for d
    proof (cases "d = ?old")
      case True then show ?thesis by (simp add: re)
    next
      case F: False
      then have "mdd_counts m d \<le> mdd_counts m' d" by (simp add: m' ner)
      then have "mdd_counts m d < mdd_counts m0 d" using d by simp
      then show ?thesis using inv by (auto simp: journal_inv_def re)
    qed
    have K: "mdd_values m' x = mdd_values m0 x \<or> mdd_values m' x = INVALID_MDD
             \<or> (False \<and> recompute_mdd env x = Some (mdd_values m' x))" for x
    proof (cases "x = u")
      case True then show ?thesis using cur by simp
    next
      case F: False
      then have "mdd_values m' x = mdd_values m x" by (simp add: m' ner)
      then show ?thesis using inv by (auto simp: journal_inv_def)
    qed
    have frame: "0 \<le> row_size (stack m' r)" "row_size (stack m' r) \<le> 1024"
      "max_mdd m' = max_mdd m0" "stack_size m' = stack_size m0"
      "\<forall>i. i \<noteq> r \<longrightarrow> stack m' i = stack m0 i"
      using inv ner by (simp_all add: journal_inv_def m')
    have B: "\<forall>e \<in> set (row_entries m' r). old_mdd e \<le> b"
      using inv ob by (simp add: re journal_inv_def)
    show ?thesis
      unfolding journal_inv_def using frame undo B J K by blast
  qed
qed

lemma exclude_step_inv:
  assumes "journal_inv g env True r b m0 m" and "exclude_step env r u m = Some m'"
    and "in_array (mdd_values m0 u) \<longrightarrow> mdd_values m0 u \<le> b"
  shows "journal_inv g env True r b m0 m'"
proof -
  from assms(2) have "m' = m \<or> refresh_mdd env r u m = Some m'"
    by (auto simp: exclude_step_def bind_eq_Some_conv split: if_splits)
  then show ?thesis using assms(1,3) refresh_mdd_inv by blast
qed

lemma journal_inv_second: "journal_inv g env False r b m0 m \<Longrightarrow> journal_inv g env True r b m0 m"
  unfolding journal_inv_def by blast

lemma fold_option_invariant:
  assumes step: "\<And>x s s'. x \<in> set xs \<Longrightarrow> P s \<Longrightarrow> f x s = Some s' \<Longrightarrow> P s'"
    and "P s" and "fold_option f xs s = Some s'"
  shows "P s'"
proof -
  have "fold_option f ys t = Some s' \<Longrightarrow> P t \<Longrightarrow> set ys \<subseteq> set xs \<Longrightarrow> P s'" for ys t
  proof (induction ys arbitrary: t)
    case Nil then show ?case by simp
  next
    case (Cons y ys)
    from Cons.prems(1) obtain t' where t': "f y t = Some t'" and rest: "fold_option f ys t' = Some s'"
      by (auto split: option.splits)
    have "P t'" using step[of y t t'] Cons.prems(2,3) t' by simp
    then show ?case using Cons.IH[OF rest] Cons.prems(3) by simp
  qed
  then show ?thesis using assms(2,3) by blast
qed

lemma journal_inv_start:
  assumes "new_row v m = Some m1"
  shows "journal_inv g env second (stack_size m) b m1 m1"
    and "mdd_values m1 = mdd_values m" and "mdd_counts m1 = mdd_counts m" and "max_mdd m1 = max_mdd m"
    and "stack_size m1 = stack_size m + 1" and "in_array (stack_size m)"
    and "\<forall>i. i \<noteq> stack_size m \<longrightarrow> stack m1 i = stack m i"
  using assms by (auto simp: new_row_def journal_inv_def row_entries_def split: if_splits)

lemma lower_max_mdd_guarded_result:
  "lower_max_mdd_guarded m = Some m'
   \<Longrightarrow> m' = m\<lparr>max_mdd := max_mdd m'\<rparr> \<and> in_array (max_mdd m') \<and> max_mdd m' \<le> max_mdd m
       \<and> (max_mdd m' < max_mdd m \<longrightarrow> mdd_counts m (max_mdd m) = 0)"
proof (induction m rule: lower_max_mdd_guarded.induct)
  case (1 m)
  show ?case
  proof (cases "mdd_counts m (max_mdd m) = 0 \<and> max_mdd m > 0")
    case True
    with "1.prems" have ia: "in_array (max_mdd m)"
      and rec: "lower_max_mdd_guarded (m\<lparr>max_mdd := max_mdd m - 1\<rparr>) = Some m'"
      by (subst (asm) lower_max_mdd_guarded.simps, simp split: if_splits)+
    from "1.IH"[OF _ True rec] ia True show ?thesis by auto
  next
    case False
    with "1.prems" have "m' = m" "in_array (max_mdd m)"
      by (subst (asm) lower_max_mdd_guarded.simps, auto split: if_splits)+
    then show ?thesis by simp
  qed
qed

lemma lower_max_mdd_result:
  "lower_max_mdd m = Some m'
   \<Longrightarrow> m' = m\<lparr>max_mdd := max_mdd m'\<rparr> \<and> in_array (max_mdd m') \<and> max_mdd m' \<le> max_mdd m
       \<and> (max_mdd m' < max_mdd m \<longrightarrow> mdd_counts m (max_mdd m) = 0)"
proof (induction m rule: lower_max_mdd.induct)
  case (1 m)
  show ?case
  proof (cases "mdd_counts m (max_mdd m) = 0")
    case True
    with "1.prems" have ia: "in_array (max_mdd m)"
      and rec: "lower_max_mdd (m\<lparr>max_mdd := max_mdd m - 1\<rparr>) = Some m'"
      by (subst (asm) lower_max_mdd.simps, simp split: if_splits)+
    from "1.IH"[OF _ True rec] ia True show ?thesis by auto
  next
    case False
    with "1.prems" have "m' = m" "in_array (max_mdd m)"
      by (subst (asm) lower_max_mdd.simps, auto split: if_splits)+
    then show ?thesis by simp
  qed
qed

lemma fold_max_le: "\<forall>x \<in> set xs. x \<le> M \<Longrightarrow> h \<le> M \<Longrightarrow> fold max xs h \<le> (M::int)"
  by (induction xs arbitrary: h) auto

lemma fold_max_ge_init: "h \<le> fold max xs (h::int)"
proof (induction xs arbitrary: h)
  case Nil then show ?case by simp
next
  case (Cons x xs)
  have "h \<le> max x h" by simp
  also have "\<dots> \<le> fold max xs (max x h)" by (rule Cons.IH)
  finally show ?case by simp
qed

lemma fold_max_ge: "x \<in> set xs \<Longrightarrow> x \<le> fold max xs (h::int)"
proof (induction xs arbitrary: h)
  case Nil then show ?case by simp
next
  case (Cons y ys)
  show ?case
  proof (cases "x = y")
    case True
    have "x \<le> max y h" using True by simp
    also have "\<dots> \<le> fold max ys (max y h)" by (rule fold_max_ge_init)
    finally show ?thesis by simp
  next
    case False
    then show ?thesis using Cons by simp
  qed
qed

lemma undo_journal:
  assumes inv: "journal_inv g env True r b ma mc"
    and ma: "mdd_values ma = mdd_values m" "mdd_counts ma = mdd_counts m" "max_mdd ma = max_mdd m"
      "stack_size ma = r + 1" "in_array r" "\<forall>i. i \<noteq> r \<longrightarrow> stack ma i = stack m i" "stack_size m = r"
    and low: "m1 = mc\<lparr>max_mdd := max_mdd m1\<rparr>" "in_array (max_mdd m1)" "max_mdd m1 \<le> max_mdd mc"
      "max_mdd m1 < max_mdd mc \<longrightarrow> mdd_counts mc (max_mdd mc) = 0"
    and rest: "restored m1 m1'"
  shows "\<exists>mp h m2. pop_row v m1' = Some mp \<and> stack_size mp = r \<and> unwind_row g r 0 mp = Some (h, m2)
           \<and> journal_undone m (if h > max_mdd m2 then m2\<lparr>max_mdd := h\<rparr> else m2)
           \<and> (b = max_mdd m \<and> (max_mdd m = 0 \<or> 0 < mdd_counts m (max_mdd m))
                \<longrightarrow> max_mdd (if h > max_mdd m2 then m2\<lparr>max_mdd := h\<rparr> else m2) = max_mdd m)"
proof -
  let ?mp = "m1'\<lparr>stack_size := r\<rparr>"
  let ?es = "row_entries mc r"
  let ?H = "fold max (map old_mdd ?es) 0"
  have mc: "0 \<le> row_size (stack mc r)" "row_size (stack mc r) \<le> 1024" "max_mdd mc = max_mdd ma"
    "stack_size mc = stack_size ma" "\<forall>i. i \<noteq> r \<longrightarrow> stack mc i = stack ma i"
    "undo_entries g ?es (0, mdd_values mc, mdd_counts mc) = Some (?H, mdd_values ma, mdd_counts ma)"
    "\<forall>e \<in> set ?es. old_mdd e \<le> b"
    "\<forall>d. mdd_counts mc d < mdd_counts ma d \<longrightarrow> (\<exists>e \<in> set ?es. old_mdd e = d)"
    using inv unfolding journal_inv_def by blast+
  have m1: "mdd_values m1 = mdd_values mc" "mdd_counts m1 = mdd_counts mc" "stack m1 = stack mc"
    "stack_size m1 = stack_size mc"
    by (subst low(1), simp)+
  have m1': "mdd_values m1' = mdd_values mc" "mdd_counts m1' = mdd_counts mc" "max_mdd m1' = max_mdd m1"
    "stack_size m1' = r + 1" "\<forall>i. i < r + 1 \<longrightarrow> stack m1' i = stack mc i"
    using rest m1 mc(4) ma(4) by (simp_all add: restored_def journal_undone_def)
  have pop: "pop_row v m1' = Some ?mp"
    using m1'(4) ma(5) by (simp add: pop_row_def)
  have rowr: "stack ?mp r = stack mc r" using m1'(5) by simp
  have es: "row_entries ?mp r = ?es" using rowr by (simp add: row_entries_def)
  have u: "undo_entries g ?es (0, mdd_values ?mp, mdd_counts ?mp) = Some (?H, mdd_values ma, mdd_counts ma)"
    using mc(6) m1'(1,2) by simp
  from unwind_row_undo[OF u es] mc(1,2) rowr
  obtain m2 where m2: "unwind_row g r 0 ?mp = Some (?H, m2)" "mdd_values m2 = mdd_values ma"
    "mdd_counts m2 = mdd_counts ma" "max_mdd m2 = max_mdd ?mp" "stack_size m2 = stack_size ?mp"
    "\<forall>i. i \<noteq> r \<longrightarrow> stack m2 i = stack ?mp i"
    by auto
  have rows: "\<forall>i. i < r \<longrightarrow> stack m2 i = stack m i"
    using m2(6) m1'(5) mc(5) ma(6) by simp
  have mx: "max_mdd m2 = max_mdd m1" using m2(4) m1'(3) by simp
  have final: "(if ?H > max_mdd m1 then ?H else max_mdd m1) = max_mdd m"
    if b: "b = max_mdd m" and att: "max_mdd m = 0 \<or> 0 < mdd_counts m (max_mdd m)"
  proof -
    have M0: "0 \<le> max_mdd m" using low(2,3) mc(3) ma(3) by (simp add: in_array_def)
    have Hle: "?H \<le> max_mdd m"
      using mc(7) M0 b by (intro fold_max_le) auto
    show ?thesis
    proof (cases "max_mdd m1 < max_mdd mc")
      case True
      then have z: "mdd_counts mc (max_mdd mc) = 0" using low(4) by simp
      have "max_mdd m \<noteq> 0" using True low(2) mc(3) ma(3) by (simp add: in_array_def)
      then have "0 < mdd_counts ma (max_mdd mc)" using att ma(2,3) mc(3) by simp
      then have "mdd_counts mc (max_mdd mc) < mdd_counts ma (max_mdd mc)" using z by simp
      then obtain e where "e \<in> set ?es" "old_mdd e = max_mdd mc" using mc(8) by blast
      then have "max_mdd mc \<in> set (map old_mdd ?es)" by force
      then have "max_mdd mc \<le> ?H" by (rule fold_max_ge)
      then show ?thesis using Hle True mc(3) ma(3) by simp
    next
      case False
      then have "max_mdd m1 = max_mdd m" using low(3) mc(3) ma(3) by simp
      then show ?thesis using Hle by simp
    qed
  qed
  have A: "journal_undone m (if ?H > max_mdd m2 then m2\<lparr>max_mdd := ?H\<rparr> else m2)"
    using m2(2,3,5) ma(1,2,7) rows by (auto simp: journal_undone_def)
  have B: "b = max_mdd m \<and> (max_mdd m = 0 \<or> 0 < mdd_counts m (max_mdd m))
           \<longrightarrow> max_mdd (if ?H > max_mdd m2 then m2\<lparr>max_mdd := ?H\<rparr> else m2) = max_mdd m"
    using final mx by (auto split: if_splits)
  show ?thesis using pop m2(1) A B
    by (intro exI[where x = ?mp] exI[where x = ?H] exI[where x = m2]) simp
qed

lemma remove_after_add:
  assumes add: "add_dominator env v m = Some m1" and rest: "restored m1 m1'"
  shows "\<exists>m2. remove_dominator v m1' = Some m2 \<and> journal_undone m m2
           \<and> (max_mdd_exact env v m \<longrightarrow> max_mdd m2 = max_mdd m)"
proof -
  let ?r = "stack_size m"
  define b where "b = (if max_mdd_exact env v m then max_mdd m else 1023)"
  from add obtain ma vx mb mc where
    nr: "new_row v m = Some ma" and vx: "vertex_at (env_G env) v = Some vx"
    and l1: "fold_option (clear_neighbour ?r) (neighbours vx) ma = Some mb"
    and l2: "fold_option (refresh_mdd env ?r) (vs_list (env_UndominatedSet env)) mb = Some mc"
    and lw: "lower_max_mdd_guarded mc = Some m1"
    by (auto simp: add_dominator_def Let_def bind_eq_Some_conv)
  note st = journal_inv_start[OF nr]
  have bnd: "\<And>u. u \<in> set (neighbours vx) \<or> u \<in> set (vs_list (env_UndominatedSet env))
               \<Longrightarrow> in_array (mdd_values ma u) \<longrightarrow> mdd_values ma u \<le> b"
    using vx st(2,4) by (auto simp: b_def max_mdd_exact_def mdd_scope_def in_array_def MAX_VERTS_def)
  have i1: "journal_inv True env False ?r b ma mb"
    using st(1)[of True env False b] l1 bnd
    by (intro fold_option_invariant[where P = "journal_inv True env False ?r b ma" and xs = "neighbours vx"
          and f = "clear_neighbour ?r" and s = ma and s' = mb]) (auto intro: clear_neighbour_inv)
  have i2: "journal_inv True env True ?r b ma mc"
    using journal_inv_second[OF i1] l2 bnd
    by (intro fold_option_invariant[where P = "journal_inv True env True ?r b ma"
          and xs = "vs_list (env_UndominatedSet env)"
          and f = "refresh_mdd env ?r" and s = mb and s' = mc]) (auto intro: refresh_mdd_inv)
  note low = lower_max_mdd_guarded_result[OF lw]
  from undo_journal[OF i2 st(2,3,4,5,6,7) refl _ _ _ _ rest, of v] low
  obtain mp h m2 where "pop_row v m1' = Some mp" "stack_size mp = ?r" "unwind_row True ?r 0 mp = Some (h, m2)"
    "journal_undone m (if h > max_mdd m2 then m2\<lparr>max_mdd := h\<rparr> else m2)"
    "b = max_mdd m \<and> (max_mdd m = 0 \<or> 0 < mdd_counts m (max_mdd m))
       \<longrightarrow> max_mdd (if h > max_mdd m2 then m2\<lparr>max_mdd := h\<rparr> else m2) = max_mdd m"
    by blast
  then show ?thesis by (auto simp: remove_dominator_def b_def max_mdd_exact_def)
qed

lemma unexclude_after_exclude:
  assumes exc: "exclude_dominator env v m = Some m1" and rest: "restored m1 m1'"
  shows "\<exists>m2. unexclude_dominator v m1' = Some m2 \<and> journal_undone m m2
           \<and> (max_mdd_exact env v m \<longrightarrow> max_mdd m2 = max_mdd m)"
proof -
  let ?r = "stack_size m"
  define b where "b = (if max_mdd_exact env v m then max_mdd m else 1023)"
  from exc obtain ma vx mc where
    nr: "new_row v m = Some ma" and vx: "vertex_at (env_G env) v = Some vx"
    and l1: "fold_option (exclude_step env ?r) (neighbours vx) ma = Some mc"
    and lw: "lower_max_mdd mc = Some m1"
    by (auto simp: exclude_dominator_def Let_def bind_eq_Some_conv)
  note st = journal_inv_start[OF nr]
  have bnd: "\<And>u. u \<in> set (neighbours vx)
               \<Longrightarrow> in_array (mdd_values ma u) \<longrightarrow> mdd_values ma u \<le> b"
    using vx st(2,4) by (auto simp: b_def max_mdd_exact_def mdd_scope_def in_array_def MAX_VERTS_def)
  have i2: "journal_inv False env True ?r b ma mc"
    using st(1)[of False env True b] l1 bnd
    by (intro fold_option_invariant[where P = "journal_inv False env True ?r b ma" and xs = "neighbours vx"
          and f = "exclude_step env ?r" and s = ma and s' = mc]) (auto intro: exclude_step_inv)
  note low = lower_max_mdd_result[OF lw]
  from undo_journal[OF i2 st(2,3,4,5,6,7) refl _ _ _ _ rest, of v] low
  obtain mp h m2 where "pop_row v m1' = Some mp" "stack_size mp = ?r" "unwind_row False ?r 0 mp = Some (h, m2)"
    "journal_undone m (if h > max_mdd m2 then m2\<lparr>max_mdd := h\<rparr> else m2)"
    "b = max_mdd m \<and> (max_mdd m = 0 \<or> 0 < mdd_counts m (max_mdd m))
       \<longrightarrow> max_mdd (if h > max_mdd m2 then m2\<lparr>max_mdd := h\<rparr> else m2) = max_mdd m"
    by blast
  then show ?thesis by (auto simp: unexclude_dominator_def b_def max_mdd_exact_def)
qed

lemma restored_refl: "restored m m"
  by (simp add: restored_def journal_undone_def)

text \<open>
  Claim C6. Let \<^verbatim>\<open>max_mdd\<close> be exact in the stack \<open>m\<close>: it is 0 or has a positive counter, and
  no valid value read by the call exceeds it. If \<^verbatim>\<open>add_dominator(v)\<close> takes \<open>m\<close> to \<open>m1\<close>, and
  the calls in between are paired so that they leave a stack \<open>m1'\<close> with the values, counters,
  \<^verbatim>\<open>max_mdd\<close>, height and rows in use of \<open>m1\<close>, then \<^verbatim>\<open>remove_dominator(v)\<close> on \<open>m1'\<close> returns
  and gives a stack with the \<^verbatim>\<open>mdd_values\<close>, \<^verbatim>\<open>mdd_counts\<close>, \<^verbatim>\<open>max_mdd\<close>, height and rows in
  use of \<open>m\<close>. The same holds for \<^verbatim>\<open>unexclude_dominator(v)\<close> after \<^verbatim>\<open>exclude_dominator(v)\<close>.
\<close>

theorem C6_journal_restores:
  assumes "max_mdd_exact env v m" and "restored m1 m1'"
  shows "(add_dominator env v m = Some m1
            \<longrightarrow> (\<exists>m2. remove_dominator v m1' = Some m2 \<and> restored m m2))
       \<and> (exclude_dominator env v m = Some m1
            \<longrightarrow> (\<exists>m2. unexclude_dominator v m1' = Some m2 \<and> restored m m2))"
  using remove_after_add[of env v m m1 m1'] unexclude_after_exclude[of env v m m1 m1'] assms
  unfolding restored_def by blast

lemma P4_add_dominator:
  "\<not> Option.is_none (add_dominator (env_of P4_graph P4_covered) 1 (mdd_stack P4_covered))"
  "max_mdd_exact (env_of P4_graph P4_covered) 1 (mdd_stack P4_covered)"
  "map_option max_mdd (add_dominator (env_of P4_graph P4_covered) 1 (mdd_stack P4_covered)) = Some 1"
  "max_mdd (mdd_stack P4_covered) = 3"
  by code_simp+

lemma P4_exclude_dominator:
  "\<not> Option.is_none (exclude_dominator (env_of P4_graph P4_fixed) 1 (mdd_stack P4_fixed))"
  "max_mdd_exact (env_of P4_graph P4_fixed) 1 (mdd_stack P4_fixed)"
  "map_option (\<lambda>m. mdd_values m 0) (exclude_dominator (env_of P4_graph P4_fixed) 1 (mdd_stack P4_fixed)) = Some 2"
  "mdd_values (mdd_stack P4_fixed) 0 = 3"
  by code_simp+

theorem C6_journal_restores_witness:
  "(\<exists>m1 m2. add_dominator (env_of P4_graph P4_covered) 1 (mdd_stack P4_covered) = Some m1
       \<and> max_mdd m1 = 1 \<and> remove_dominator 1 m1 = Some m2
       \<and> restored (mdd_stack P4_covered) m2 \<and> max_mdd m2 = 3)
   \<and> (\<exists>m1 m2. exclude_dominator (env_of P4_graph P4_fixed) 1 (mdd_stack P4_fixed) = Some m1
       \<and> mdd_values m1 0 = 2 \<and> unexclude_dominator 1 m1 = Some m2
       \<and> restored (mdd_stack P4_fixed) m2 \<and> mdd_values m2 0 = 3)"
proof -
  obtain a1 where a1: "add_dominator (env_of P4_graph P4_covered) 1 (mdd_stack P4_covered) = Some a1"
    using P4_add_dominator(1) by (auto simp: Option.is_none_def)
  from C6_journal_restores[OF P4_add_dominator(2) restored_refl[of a1]] a1
  obtain a2 where a2: "remove_dominator 1 a1 = Some a2" "restored (mdd_stack P4_covered) a2"
    by blast
  have a3: "max_mdd a1 = 1" "max_mdd a2 = 3"
    using P4_add_dominator(3,4) a1 a2(2) by (simp_all add: restored_def)
  obtain e1 where e1: "exclude_dominator (env_of P4_graph P4_fixed) 1 (mdd_stack P4_fixed) = Some e1"
    using P4_exclude_dominator(1) by (auto simp: Option.is_none_def)
  from C6_journal_restores[OF P4_exclude_dominator(2) restored_refl[of e1]] e1
  obtain e2 where e2: "unexclude_dominator 1 e1 = Some e2" "restored (mdd_stack P4_fixed) e2"
    by blast
  have e3: "mdd_values e1 0 = 2" "mdd_values e2 0 = 3"
    using P4_exclude_dominator(3,4) e1 e2(2) by (simp_all add: restored_def journal_undone_def)
  show ?thesis using a1 a2 a3 e1 e2 e3 by blast
qed

subsection \<open>The ranking of the candidates of a pivot\<close>




























lemma ranked_output_ascending:
  "\<forall>w \<in> set cands. d w \<noteq> 0 \<Longrightarrow> ranked_output RANK_NEIGHBOURS_ASCENDING d cands = sort_key d cands"
  by (simp add: ranked_output_def takeWhile_eq_all_conv)

lemma ranked_output_descending:
  "ranked_output RANK_NEIGHBOURS_DESCENDING d cands = rev (sort_key d (filter (\<lambda>w. d w \<noteq> 0) cands))"
  by (simp add: ranked_output_def filter_sort)





end
